theory Spec2Isabelle
  imports Main
begin

section \<open>xmlfrob: attribute edits on a stream of XML tokens\<close>

text \<open>
  The program has two functions of its own: \<open>parseModifications\<close>, which splits the
  patterns of the command line, and \<open>frobnicate\<close>, which reads tokens from
  \<open>encoding/xml\<close>'s decoder, edits attribute values and writes the tokens back through
  \<open>encoding/xml\<close>'s encoder. Both are embedded below as they are written. The decoder and
  the encoder belong to the Go library, not to the program: the decoder appears as the
  sequence of results of its \<open>RawToken\<close> calls, the encoder as a parameter of the model.
  \<open>main\<close>, \<open>usage\<close> and \<open>writeInplace\<close> read flags and files and write files; they are
  not modelled.
\<close>

subsection \<open>Modifications and their parser\<close>

text \<open>
  \<open>type modification struct { path, attribute, value string }\<close>. The third field is
  written \<open>value'\<close>.
\<close>

record modification =
  path :: string
  attribute :: string
  value' :: string

text \<open>
  \<open>strings.SplitN(s, sep, 2)\<close> for a separator of one byte: the text before the first
  separator and the text after it, or \<open>s\<close> alone when it holds no separator.
\<close>

definition SplitN2 :: "string \<Rightarrow> char \<Rightarrow> string list" where
  "SplitN2 s sep =
     (if sep \<in> set s
      then [takeWhile (\<lambda>c. c \<noteq> sep) s, tl (dropWhile (\<lambda>c. c \<noteq> sep) s)]
      else [s])"

text \<open>The text of the error: \<open>fmt.Errorf(`Invalid mod "%s": expected syntax ...`, mod)\<close>.\<close>

definition Errorf :: "string \<Rightarrow> string" where
  "Errorf m = ''Invalid mod \"'' @ m @ ''\": expected syntax /xml/path@attr=newValue''"

text \<open>
  The loop over \<open>modStrings\<close> returns at the first string that does not split into
  two and two; \<open>Inl\<close> is the returned error.
\<close>

fun parseModifications :: "string list \<Rightarrow> string + modification list" where
  "parseModifications [] = Inr []"
| "parseModifications (m # modStrings) =
     (let pathAttrValue = SplitN2 m CHR ''='';
          pathAttr = SplitN2 (hd pathAttrValue) CHR ''@''
      in if length pathAttrValue \<noteq> 2 \<or> length pathAttr \<noteq> 2
         then Inl (Errorf m)
         else (case parseModifications modStrings of
                 Inl err \<Rightarrow> Inl err
               | Inr modifications \<Rightarrow>
                   Inr (\<lparr>path = pathAttr ! 0, attribute = pathAttr ! 1,
                          value' = pathAttrValue ! 1\<rparr> # modifications)))"

text \<open>
  Two notions for stating what the parser accepts, written from the characters of the
  string and not from \<open>SplitN2\<close>: a string is \<open>malformed\<close> when it has no \<open>=\<close> or no
  \<open>@\<close> before its first \<open>=\<close>; \<open>modOf\<close> cuts a string at its first \<open>@\<close> and at its
  first \<open>=\<close>.
\<close>

definition malformed :: "string \<Rightarrow> bool" where
  "malformed s \<longleftrightarrow>
     CHR ''='' \<notin> set s \<or> CHR ''@'' \<notin> set (takeWhile (\<lambda>c. c \<noteq> CHR ''='') s)"

definition modOf :: "string \<Rightarrow> modification" where
  "modOf s =
     \<lparr>path = takeWhile (\<lambda>c. c \<noteq> CHR ''@'') s,
      attribute = takeWhile (\<lambda>c. c \<noteq> CHR ''='') (tl (dropWhile (\<lambda>c. c \<noteq> CHR ''@'') s)),
      value' = tl (dropWhile (\<lambda>c. c \<noteq> CHR ''='') s)\<rparr>"

subsection \<open>Tokens, as \<open>Decoder.RawToken\<close> returns them\<close>

text \<open>
  \<open>xml.Name\<close>, \<open>xml.Attr\<close> and the six kinds of \<open>xml.Token\<close>. \<open>RawToken\<close> does not
  resolve name spaces: \<open>Space\<close> holds the prefix written in the document, and the program
  reads \<open>Local\<close> only. A tag written \<open><a/>\<close> arrives as a \<open>StartElement\<close> followed by an
  \<open>EndElement\<close>, as \<open><a></a>\<close> does.
\<close>

record Name =
  Space :: string
  Local :: string

record Attr =
  Name :: Name
  Value :: string

datatype token =
    StartElement Name "Attr list"
  | EndElement Name
  | CharData string
  | Comment string
  | ProcInst string string
  | Directive string

text \<open>
  The input of one pass is what the successive calls of \<open>decoder.RawToken()\<close> return:
  tokens, and then an error, which is \<open>io.EOF\<close> or anything else. A file is finite, so
  the tokens form a list.
\<close>

datatype lexend = EOF | LexError string

subsection \<open>The encoder, a parameter\<close>

text \<open>
  \<open>xml.NewEncoder(&outbytes)\<close> is library code. The model takes it as a record of its
  three operations over a state \<open>'e\<close> of the encoder's own: the new encoder, \<open>EncodeToken\<close>,
  which returns an error or the new state with the bytes it wrote, and \<open>Flush\<close>. The
  encoder writes into \<open>outbytes\<close>, a \<open>bytes.Buffer\<close>, whose \<open>Write\<close> never returns an error;
  so \<open>Flush\<close> returns \<open>nil\<close> and has no error result here. The theorems below hold for
  every such record.
\<close>

record 'e Encoder =
  NewEncoder :: 'e
  EncodeToken :: "'e \<Rightarrow> token \<Rightarrow> string + 'e \<times> string"
  Flush :: "'e \<Rightarrow> 'e"

subsection \<open>\<open>frobnicate\<close>\<close>

text \<open>
  The ways the pass ends without output: \<open>log.Fatalf\<close> on a lexing error (the process
  exits with the message), an error returned by the encoder, and a run-time panic.
\<close>

datatype failure = Fatal string | EncodeError string | Panic string

text \<open>
  The variables of \<open>frobnicate\<close>. \<open>path_buf\<close> is the buffer \<open>path\<close> of the source.
  The encoder writes through a \<open>bufio.Writer\<close>, so a byte that it has written is in the
  \<open>bytes.Buffer\<close> only after a \<open>Flush\<close>: \<open>outbytes\<close> holds every byte written so far,
  \<open>flushed\<close> says how many of them the buffer holds, and \<open>buffer\<close> below is the
  contents of the \<open>bytes.Buffer\<close>, which is what the program reads and returns. (The
  \<open>bufio.Writer\<close> also passes bytes on when its 4096 bytes are full; the program reads
  the buffer only right after a \<open>Flush\<close>, where that makes no difference.)
  \<open>pluginNo\<close> is a Go \<open>int\<close> that only counts upwards from 0, by one for a start tag;
  it is a \<open>nat\<close> here, since an \<open>int\<close> of 64 bits would wrap only after \<open>2^63\<close> start
  tags in one document.
\<close>

record 'e state =
  outbytes :: string
  out :: 'e
  previousWasStart :: bool
  path_buf :: string
  skip :: bool
  pluginNo :: nat
  flushed :: nat

definition buffer :: "'e state \<Rightarrow> string" where
  "buffer s = take (flushed s) (outbytes s)"

definition plugin :: string where
  "plugin = ''/project/profiles/profile/build/plugins/plugin''"

text \<open>
  \<open>bytes.LastIndexByte\<close> returns \<open>-1\<close> when the byte is absent, and
  \<open>Buffer.Truncate\<close> panics on an argument outside \<open>0 .. Len()\<close>.
\<close>

definition LastIndexByte :: "string \<Rightarrow> char \<Rightarrow> int" where
  "LastIndexByte s c =
     (if c \<in> set s then int (length s) - 1 - int (length (takeWhile (\<lambda>x. x \<noteq> c) (rev s)))
      else - 1)"

definition Truncate :: "string \<Rightarrow> int \<Rightarrow> failure + string" where
  "Truncate b n =
     (if n < 0 \<or> int (length b) < n then Inl (Panic ''bytes.Buffer: truncation out of range'')
      else Inr (take (nat n) b))"

text \<open>
  The inner loop, \<open>for i, attr := range tok.Attr\<close>: it visits every index and has no
  \<open>break\<close>.
\<close>

function attrLoop :: "modification \<Rightarrow> nat \<Rightarrow> Attr list \<Rightarrow> Attr list" where
  "attrLoop pat i attrs =
     (if i < length attrs
      then attrLoop pat (Suc i)
             (if Local (Name (attrs ! i)) = attribute pat
              then attrs[i := (attrs ! i)\<lparr>Value := value' pat\<rparr>]
              else attrs)
      else attrs)"
  by pat_completeness auto
termination
  by (relation "measure (\<lambda>(pat, i, attrs). length attrs - i)") auto

declare attrLoop.simps [simp del]

text \<open>The outer loop, \<open>for _, pat := range modifications\<close>, at the path \<open>p\<close>.\<close>

fun patLoop :: "modification list \<Rightarrow> string \<Rightarrow> Attr list \<Rightarrow> Attr list" where
  "patLoop [] p attrs = attrs"
| "patLoop (pat # modifications) p attrs =
     patLoop modifications p (if p = path pat then attrLoop pat 0 attrs else attrs)"

text \<open>\<open>out.EncodeToken(tok)\<close> with its \<open>return nil, err\<close>, and \<open>out.Flush()\<close>.\<close>

definition encode :: "'e Encoder \<Rightarrow> 'e state \<Rightarrow> token \<Rightarrow> failure + 'e state" where
  "encode enc s tok =
     (case EncodeToken enc (out s) tok of
        Inl err \<Rightarrow> Inl (EncodeError err)
      | Inr (e, bytes) \<Rightarrow> Inr (s\<lparr>out := e, outbytes := outbytes s @ bytes\<rparr>))"

definition flush :: "'e Encoder \<Rightarrow> 'e state \<Rightarrow> 'e state" where
  "flush enc s = s\<lparr>out := Flush enc (out s), flushed := length (outbytes s)\<rparr>"

text \<open>
  The branch \<open>if previousWasStart\<close> of an end tag: flush, look at the last byte (an
  index of \<open>-1\<close> when the buffer is empty), encode the end tag, flush, cut the buffer
  before the last byte it had and write \<open>/>\<close>. \<open>Truncate\<close> and \<open>WriteString\<close> act on
  the \<open>bytes.Buffer\<close> itself, past the encoder.
\<close>

definition selfClose :: "'e Encoder \<Rightarrow> 'e state \<Rightarrow> token \<Rightarrow> failure + 'e state" where
  "selfClose enc s tok =
     (let s1 = flush enc s in
      if buffer s1 = [] then Inl (Panic ''index out of range [-1]'')
      else if last (buffer s1) \<noteq> CHR ''>''
      then Inl (Panic ''expected > token as last byte in output'')
      else
        let pos = length (buffer s1) - 1 in
        (case encode enc s1 tok of
           Inl f \<Rightarrow> Inl f
         | Inr s2 \<Rightarrow>
             let s3 = flush enc s2;
                 cut = take pos (buffer s3) @ ''/>''
             in Inr (s3\<lparr>outbytes := cut, flushed := length cut\<rparr>)))"

text \<open>The three cases of the \<open>switch\<close>.\<close>

definition startElement ::
  "'e Encoder \<Rightarrow> modification list \<Rightarrow> 'e state \<Rightarrow> Name \<Rightarrow> Attr list \<Rightarrow> failure + 'e state" where
  "startElement enc modifications s n attrs =
     (let s1 = s\<lparr>path_buf := path_buf s @ ''/'' @ Local n\<rparr>;
          s2 = (if path_buf s1 = plugin
                then s1\<lparr>skip := (pluginNo s1 = 0 \<or> pluginNo s1 = 1), pluginNo := pluginNo s1 + 1\<rparr>
                else s1);
          tok = StartElement n (patLoop modifications (path_buf s2) attrs);
          s3 = s2\<lparr>previousWasStart := True\<rparr>
      in if \<not> skip s3 then encode enc s3 tok else Inr s3)"

definition endElement :: "'e Encoder \<Rightarrow> 'e state \<Rightarrow> Name \<Rightarrow> failure + 'e state" where
  "endElement enc s n =
     (let cur = path_buf s in
      case Truncate (path_buf s) (LastIndexByte (path_buf s) CHR ''/'') of
        Inl f \<Rightarrow> Inl f
      | Inr p \<Rightarrow>
          let s1 = s\<lparr>path_buf := p\<rparr> in
          (case (if \<not> skip s1
                 then (case (if previousWasStart s1 then selfClose enc s1 (EndElement n)
                             else encode enc s1 (EndElement n)) of
                         Inl f \<Rightarrow> Inl f
                       | Inr s2 \<Rightarrow> Inr (s2\<lparr>previousWasStart := False\<rparr>))
                 else Inr s1) of
             Inl f \<Rightarrow> Inl f
           | Inr s3 \<Rightarrow> Inr (if cur = plugin then s3\<lparr>skip := False\<rparr> else s3)))"

definition otherToken :: "'e Encoder \<Rightarrow> 'e state \<Rightarrow> token \<Rightarrow> failure + 'e state" where
  "otherToken enc s tok =
     (let s1 = s\<lparr>previousWasStart := False\<rparr>
      in if \<not> skip s1 then encode enc s1 tok else Inr s1)"

definition step ::
  "'e Encoder \<Rightarrow> modification list \<Rightarrow> 'e state \<Rightarrow> token \<Rightarrow> failure + 'e state" where
  "step enc modifications s tok =
     (case tok of
        StartElement n attrs \<Rightarrow> startElement enc modifications s n attrs
      | EndElement n \<Rightarrow> endElement enc s n
      | _ \<Rightarrow> otherToken enc s tok)"

text \<open>
  The \<open>for\<close> loop: \<open>io.EOF\<close> leaves it for \<open>return &outbytes, out.Flush()\<close>, any other
  error of \<open>RawToken\<close> ends the process in \<open>log.Fatalf\<close>.
\<close>

fun loop ::
  "'e Encoder \<Rightarrow> modification list \<Rightarrow> 'e state \<Rightarrow> token list \<Rightarrow> lexend \<Rightarrow> failure + string" where
  "loop enc modifications s [] EOF = Inr (buffer (flush enc s))"
| "loop enc modifications s [] (LexError err) =
     Inl (Fatal (''Unexpected error while parsing XML file: '' @ err))"
| "loop enc modifications s (tok # toks) fin =
     (case step enc modifications s tok of
        Inl f \<Rightarrow> Inl f
      | Inr s' \<Rightarrow> loop enc modifications s' toks fin)"

definition start :: "'e Encoder \<Rightarrow> 'e state" where
  "start enc = \<lparr>outbytes = [], out = NewEncoder enc, previousWasStart = False,
                path_buf = [], skip = False, pluginNo = 0, flushed = 0\<rparr>"

definition frobnicate ::
  "'e Encoder \<Rightarrow> token list \<times> lexend \<Rightarrow> modification list \<Rightarrow> failure + string" where
  "frobnicate enc inp modifications = loop enc modifications (start enc) (fst inp) (snd inp)"

text \<open>
  \<open>frobnicate\<close> of the source takes the bytes of the input and reads them through
  \<open>xml.NewDecoder\<close>, library code as the encoder is. \<open>rewriteWith\<close> is the pass on bytes,
  with the decoder as a parameter too: the function from the bytes of an input to what
  the calls of \<open>RawToken\<close> return on them.
\<close>

definition rewriteWith ::
  "(string \<Rightarrow> token list \<times> lexend) \<Rightarrow> 'e Encoder \<Rightarrow> string \<Rightarrow> modification list
     \<Rightarrow> failure + string" where
  "rewriteWith dec enc input modifications = frobnicate enc (dec input) modifications"

subsection \<open>Notions for the statements\<close>

text \<open>The state after a list of tokens, when no token fails.\<close>

fun run ::
  "'e Encoder \<Rightarrow> modification list \<Rightarrow> 'e state \<Rightarrow> token list \<Rightarrow> failure + 'e state" where
  "run enc modifications s [] = Inr s"
| "run enc modifications s (tok # toks) =
     (case step enc modifications s tok of
        Inl f \<Rightarrow> Inl f
      | Inr s' \<Rightarrow> run enc modifications s' toks)"

text \<open>
  What a matching modification does to one attribute, and whether two modifications
  address the same attribute of the same path.
\<close>

definition setValue :: "modification \<Rightarrow> Attr \<Rightarrow> Attr" where
  "setValue m a = (if Local (Name a) = attribute m then a\<lparr>Value := value' m\<rparr> else a)"

definition sameKey :: "modification \<Rightarrow> modification \<Rightarrow> bool" where
  "sameKey m k \<longleftrightarrow> path k = path m \<and> attribute k = attribute m"

text \<open>
  \<open>addresses p a m\<close>: the modification \<open>m\<close> matches the attribute \<open>a\<close> of an element at
  the path \<open>p\<close>. \<open>finalAttr\<close> gives the attribute the value of the last modification of
  the list that addresses it, and leaves it alone when there is none.
\<close>

definition addresses :: "string \<Rightarrow> Attr \<Rightarrow> modification \<Rightarrow> bool" where
  "addresses p a m \<longleftrightarrow> path m = p \<and> attribute m = Local (Name a)"

definition finalAttr :: "modification list \<Rightarrow> string \<Rightarrow> Attr \<Rightarrow> Attr" where
  "finalAttr ms p a =
     (let ks = filter (addresses p a) ms
      in if ks = [] then a else a\<lparr>Value := value' (last ks)\<rparr>)"

text \<open>
  The traversal path after a token, and two rewritings of a token list along it:
  \<open>setAttr m\<close> writes the value of \<open>m\<close> into the attributes that \<open>m\<close> names, on the
  elements at the path of \<open>m\<close>; \<open>edited\<close> applies a whole list of modifications.
\<close>

definition pop :: "string \<Rightarrow> string" where
  "pop p = take (nat (LastIndexByte p CHR ''/'')) p"

fun setAttr :: "modification \<Rightarrow> string \<Rightarrow> token list \<Rightarrow> token list" where
  "setAttr m p [] = []"
| "setAttr m p (StartElement n attrs # toks) =
     StartElement n (if p @ ''/'' @ Local n = path m then map (setValue m) attrs else attrs)
       # setAttr m (p @ ''/'' @ Local n) toks"
| "setAttr m p (EndElement n # toks) = EndElement n # setAttr m (pop p) toks"
| "setAttr m p (tok # toks) = tok # setAttr m p toks"

fun edited :: "modification list \<Rightarrow> string \<Rightarrow> token list \<Rightarrow> token list" where
  "edited ms p [] = []"
| "edited ms p (StartElement n attrs # toks) =
     StartElement n (patLoop ms (p @ ''/'' @ Local n) attrs) # edited ms (p @ ''/'' @ Local n) toks"
| "edited ms p (EndElement n # toks) = EndElement n # edited ms (pop p) toks"
| "edited ms p (tok # toks) = tok # edited ms p toks"

text \<open>
  A token list is \<open>plainPaths\<close> from the path \<open>p\<close> when no start tag in it reaches the
  path \<open>plugin\<close> and every end tag finds a segment to remove.
\<close>

fun plainPaths :: "string \<Rightarrow> token list \<Rightarrow> bool" where
  "plainPaths p [] = True"
| "plainPaths p (StartElement n attrs # toks) =
     (p @ ''/'' @ Local n \<noteq> plugin \<and> plainPaths (p @ ''/'' @ Local n) toks)"
| "plainPaths p (EndElement n # toks) = (CHR ''/'' \<in> set p \<and> plainPaths (pop p) toks)"
| "plainPaths p (tok # toks) = plainPaths p toks"

text \<open>
  The serialisation that the specification describes: every token through the encoder,
  in order, and a start tag that is directly followed by an end tag in the self-closing
  form, its last byte \<open>>\<close> replaced by \<open>/>\<close>. (Should the encoder end a start tag in
  another byte, the result is the panic of the source.)
\<close>

fun serialize :: "'e Encoder \<Rightarrow> 'e \<Rightarrow> string \<Rightarrow> token list \<Rightarrow> failure + string" where
  "serialize enc e acc [] = Inr acc"
| "serialize enc e acc (StartElement n attrs # EndElement n' # toks) =
     (case EncodeToken enc e (StartElement n attrs) of
        Inl err \<Rightarrow> Inl (EncodeError err)
      | Inr (e1, b1) \<Rightarrow>
          if acc @ b1 = [] then Inl (Panic ''index out of range [-1]'')
          else if last (acc @ b1) \<noteq> CHR ''>''
          then Inl (Panic ''expected > token as last byte in output'')
          else (case EncodeToken enc (Flush enc e1) (EndElement n') of
                  Inl err \<Rightarrow> Inl (EncodeError err)
                | Inr (e2, b2) \<Rightarrow>
                    serialize enc (Flush enc e2) (butlast (acc @ b1) @ ''/>'') toks))"
| "serialize enc e acc (tok # toks) =
     (case EncodeToken enc e tok of
        Inl err \<Rightarrow> Inl (EncodeError err)
      | Inr (e1, b1) \<Rightarrow> serialize enc e1 (acc @ b1) toks)"

text \<open>
  Of the three ways in which the pass ends without output, one is a return of
  \<open>frobnicate\<close> with an error as its second result: \<open>return nil, err\<close> after
  \<open>EncodeToken\<close>. After \<open>log.Fatalf\<close> and after a panic the function does not return.
\<close>

definition returnsError :: "failure + string \<Rightarrow> bool" where
  "returnsError r = (case r of Inl (EncodeError err) \<Rightarrow> True | _ \<Rightarrow> False)"

text \<open>
  To compare the output with the bytes of the input: a lexeme is a token with the bytes
  that the call of \<open>RawToken\<close> consumed for it, and \<open>lx\<close> are the \<open>lexemes\<close> of an input
  when its tokens are those of \<open>lx\<close>, up to \<open>io.EOF\<close>, and its bytes are those of \<open>lx\<close>, in
  order. For a tag written \<open><a/>\<close> the start tag has consumed the whole tag and the end
  tag nothing; such a start tag is \<open>selfClosed\<close>, and \<open>openTag\<close> is the form \<open><a>\<close> of it.
\<close>

type_synonym lexeme = "token \<times> string"

definition lexemes :: "(string \<Rightarrow> token list \<times> lexend) \<Rightarrow> string \<Rightarrow> lexeme list \<Rightarrow> bool" where
  "lexemes dec input lx \<longleftrightarrow> dec input = (map fst lx, EOF) \<and> concat (map snd lx) = input"

definition selfClosed :: "string \<Rightarrow> bool" where
  "selfClosed b \<longleftrightarrow> 2 \<le> length b \<and> drop (length b - 2) b = ''/>''"

definition openTag :: "string \<Rightarrow> string" where
  "openTag b = (if selfClosed b then take (length b - 2) b @ ''>'' else b)"

text \<open>
  The input with every element of an empty body in the self-closing form, as the
  specification has it: the bytes of the lexemes in order, but for a start tag directly
  followed by an end tag the start tag with \<open>/>\<close> for its last byte \<open>>\<close>, and nothing for
  the end tag. \<open>emptiesSelfClosed\<close> says that every such pair is one tag \<open><a/>\<close> of the
  input already.
\<close>

fun selfClosing :: "lexeme list \<Rightarrow> string" where
  "selfClosing [] = []"
| "selfClosing ((StartElement n attrs, b) # (EndElement n', b') # lx) =
     butlast (openTag b) @ ''/>'' @ selfClosing lx"
| "selfClosing ((tok, b) # lx) = b @ selfClosing lx"

fun emptiesSelfClosed :: "lexeme list \<Rightarrow> bool" where
  "emptiesSelfClosed [] = True"
| "emptiesSelfClosed ((StartElement n attrs, b) # (EndElement n', b') # lx) =
     (selfClosed b \<and> b' = [] \<and> emptiesSelfClosed lx)"
| "emptiesSelfClosed ((tok, b) # lx) = emptiesSelfClosed lx"

text \<open>
  What the pass needs of the encoder to keep the bytes of the input: from the state \<open>e\<close>
  on, flushed where the pass flushes it, the encoder writes for every token the bytes
  that the token was read from, a start tag in its open form ending in \<open>>\<close>. (What it
  writes for an end tag that directly follows a start tag is cut off again.)
\<close>

fun echoes :: "'e Encoder \<Rightarrow> 'e \<Rightarrow> lexeme list \<Rightarrow> bool" where
  "echoes enc e [] = True"
| "echoes enc e ((StartElement n attrs, b) # (EndElement n', b') # lx) =
     (case EncodeToken enc e (StartElement n attrs) of
        Inl err \<Rightarrow> False
      | Inr (e1, b1) \<Rightarrow>
          b1 = openTag b \<and> b1 \<noteq> [] \<and> last b1 = CHR ''>'' \<and>
          (case EncodeToken enc (Flush enc e1) (EndElement n') of
             Inl err \<Rightarrow> False
           | Inr (e2, b2) \<Rightarrow> echoes enc (Flush enc e2) lx))"
| "echoes enc e ((tok, b) # lx) =
     (case EncodeToken enc e tok of
        Inl err \<Rightarrow> False
      | Inr (e1, b1) \<Rightarrow> b1 = b \<and> echoes enc e1 lx)"

text \<open>
  What a second pass needs of the library: the decoder reads the serialisation of a
  token list back as these tokens, up to \<open>io.EOF\<close>.
\<close>

definition readsBack ::
  "(string \<Rightarrow> token list \<times> lexend) \<Rightarrow> 'e Encoder \<Rightarrow> token list \<Rightarrow> bool" where
  "readsBack dec enc toks =
     (case serialize enc (NewEncoder enc) [] toks of
        Inl f \<Rightarrow> False
      | Inr y \<Rightarrow> dec y = (toks, EOF))"

subsection \<open>An instance of the library for the examples\<close>

text \<open>
  To run the model on examples, the encoder of \<open>encoding/xml\<close> restricted to what the
  examples need. \<open>tags\<close> is the stack of open tags, which \<open>EncodeToken\<close> checks an end
  tag against; \<open>buffered\<close> counts the bytes written since the last \<open>Flush\<close>, which the
  check of an \<open>xml\<close> declaration reads (the buffer of 4096 bytes is taken as unbounded).
  Escaping is that of \<open>escapeText\<close> on bytes that are legal XML characters of one byte.
  Three things of the library are not reproduced, and no example uses them: the prefix
  that it invents for an attribute with a name space (the instance refuses such an
  attribute with an error of its own), its test of the target of a processing
  instruction (only the empty target is refused here) and its test of a directive.
\<close>

record printer =
  tags :: "Name list"
  buffered :: nat

fun escapeByte :: "bool \<Rightarrow> char \<Rightarrow> string" where
  "escapeByte escapeNewline c =
     (if c = CHR 0x22 then ''&#34;''
      else if c = CHR 0x27 then ''&#39;''
      else if c = CHR ''&'' then ''&amp;''
      else if c = CHR ''<'' then ''&lt;''
      else if c = CHR ''>'' then ''&gt;''
      else if c = CHR 0x09 then ''&#x9;''
      else if c = CHR 0x0A \<and> escapeNewline then ''&#xA;''
      else if c = CHR 0x0D then ''&#xD;''
      else [c])"

definition escapeText :: "string \<Rightarrow> bool \<Rightarrow> string" where
  "escapeText s escapeNewline = concat (map (escapeByte escapeNewline) s)"

definition EscapeString :: "string \<Rightarrow> string" where
  "EscapeString s = escapeText s True"

definition attrBytes :: "Attr \<Rightarrow> string" where
  "attrBytes a =
     (if Local (Name a) = [] then []
      else '' '' @ Local (Name a) @ ''=\"'' @ EscapeString (Value a) @ ''\"'')"

definition startBytes :: "Name \<Rightarrow> Attr list \<Rightarrow> string" where
  "startBytes n attrs =
     ''<'' @ Local n
       @ (if Space n \<noteq> [] then '' xmlns=\"'' @ EscapeString (Space n) @ ''\"'' else [])
       @ concat (map attrBytes attrs) @ ''>''"

fun contains :: "string \<Rightarrow> string \<Rightarrow> bool" where
  "contains [] sub = (sub = [])"
| "contains (c # s) sub = (take (length sub) (c # s) = sub \<or> contains s sub)"

definition wrote :: "printer \<Rightarrow> string \<Rightarrow> printer \<times> string" where
  "wrote p bytes = (p\<lparr>buffered := buffered p + length bytes\<rparr>, bytes)"

fun goEncodeToken :: "printer \<Rightarrow> token \<Rightarrow> string + printer \<times> string" where
  "goEncodeToken p (StartElement n attrs) =
     (if Local n = [] then Inl ''xml: start tag with no name''
      else if \<exists>a \<in> set attrs. Local (Name a) \<noteq> [] \<and> Space (Name a) \<noteq> []
      then Inl ''(attribute name spaces are outside this instance)''
      else Inr (wrote (p\<lparr>tags := tags p @ [n]\<rparr>) (startBytes n attrs)))"
| "goEncodeToken p (EndElement n) =
     (if Local n = [] then Inl ''xml: end tag with no name''
      else if tags p = [] \<or> Local (last (tags p)) = []
      then Inl (''xml: end tag </'' @ Local n @ ''> without start tag'')
      else if last (tags p) \<noteq> n
      then (if Local (last (tags p)) \<noteq> Local n
            then Inl (''xml: end tag </'' @ Local n @ ''> does not match start tag <''
                       @ Local (last (tags p)) @ ''>'')
            else Inl (''xml: end tag </'' @ Local n @ ''> in namespace '' @ Space n
                       @ '' does not match start tag <'' @ Local (last (tags p))
                       @ ''> in namespace '' @ Space (last (tags p))))
      else Inr (wrote (p\<lparr>tags := butlast (tags p)\<rparr>) (''</'' @ Local n @ ''>'')))"
| "goEncodeToken p (CharData s) = Inr (wrote p (escapeText s False))"
| "goEncodeToken p (Comment s) =
     (if contains s ''-->'' then Inl ''xml: EncodeToken of Comment containing --> marker''
      else Inr (wrote p (''<!--'' @ s @ ''-->'')))"
| "goEncodeToken p (ProcInst target inst) =
     (if target = ''xml'' \<and> buffered p \<noteq> 0
      then Inl ''xml: EncodeToken of ProcInst xml target only valid for xml declaration, first token encoded''
      else if target = [] then Inl ''xml: EncodeToken of ProcInst with invalid Target''
      else if contains inst ''?>'' then Inl ''xml: EncodeToken of ProcInst containing ?> marker''
      else Inr (wrote p (''<?'' @ target @ (if inst \<noteq> [] then '' '' @ inst else []) @ ''?>'')))"
| "goEncodeToken p (Directive s) = Inr (wrote p (''<!'' @ s @ ''>''))"

definition goEncoder :: "printer Encoder" where
  "goEncoder = \<lparr>NewEncoder = \<lparr>tags = [], buffered = 0\<rparr>,
                 EncodeToken = goEncodeToken,
                 Flush = (\<lambda>p. p\<lparr>buffered := 0\<rparr>)\<rparr>"


text \<open>
  The decoder of \<open>encoding/xml\<close>, also restricted: documents made of start tags, end
  tags and self-closing tags without name-space prefixes, attributes with quoted values,
  and character data, over printable ASCII, tab and newline, without references
  (\<open>&\<close>) and without \<open>]\<close>. On these \<open>goRawTokens\<close> returns the tokens that \<open>RawToken\<close>
  returns; every other document, well-formed or not, gets a \<open>LexError\<close>.
\<close>

datatype lexmode =
    InText string
  | TagOpen
  | InStartName string
  | InAttrs Name "Attr list"
  | InAttrName Name "Attr list" string
  | AfterAttrName Name "Attr list" string
  | AfterEq Name "Attr list" string
  | InAttrValue Name "Attr list" string char string
  | AfterSlash Name "Attr list"
  | EndOpen
  | InEndName string
  | AfterEndName Name

definition isLetter :: "char \<Rightarrow> bool" where
  "isLetter c \<longleftrightarrow> c \<in> set ''abcdefghijklmnopqrstuvwxyzABCDEFGHIJKLMNOPQRSTUVWXYZ_''"

definition isNameByte :: "char \<Rightarrow> bool" where
  "isNameByte c \<longleftrightarrow> isLetter c \<or> c \<in> set ''0123456789.-''"

definition isSpace :: "char \<Rightarrow> bool" where
  "isSpace c \<longleftrightarrow> c = CHR '' '' \<or> c = CHR 0x0A \<or> c = CHR 0x09"

definition isPlain :: "char \<Rightarrow> bool" where
  "isPlain c \<longleftrightarrow>
     (c = CHR 0x0A \<or> c = CHR 0x09 \<or> (32 \<le> (of_char c :: nat) \<and> (of_char c :: nat) \<le> 126))
     \<and> c \<noteq> CHR ''&'' \<and> c \<noteq> CHR ''<'' \<and> c \<noteq> CHR '']''"

definition plainName :: "string \<Rightarrow> Name" where
  "plainName s = \<lparr>Space = [], Local = s\<rparr>"

definition outside :: string where
  "outside = ''(a syntax error, or a document outside the fragment of this instance)''"

definition inAttrs :: "Name \<Rightarrow> Attr list \<Rightarrow> char \<Rightarrow> string + token list \<times> lexmode" where
  "inAttrs n attrs c =
     (if isSpace c then Inr ([], InAttrs n attrs)
      else if c = CHR ''/'' then Inr ([], AfterSlash n attrs)
      else if c = CHR ''>'' then Inr ([StartElement n attrs], InText [])
      else if isLetter c then Inr ([], InAttrName n attrs [c])
      else Inl outside)"

definition afterEndName :: "Name \<Rightarrow> char \<Rightarrow> string + token list \<times> lexmode" where
  "afterEndName n c =
     (if isSpace c then Inr ([], AfterEndName n)
      else if c = CHR ''>'' then Inr ([EndElement n], InText [])
      else Inl outside)"

definition lexStep :: "lexmode \<Rightarrow> char \<Rightarrow> string + token list \<times> lexmode" where
  "lexStep mode c =
     (case mode of
        InText text \<Rightarrow>
          (if c = CHR ''<'' then Inr (if text = [] then [] else [CharData text], TagOpen)
           else if isPlain c then Inr ([], InText (text @ [c]))
           else Inl outside)
      | TagOpen \<Rightarrow>
          (if c = CHR ''/'' then Inr ([], EndOpen)
           else if isLetter c then Inr ([], InStartName [c])
           else Inl outside)
      | InStartName s \<Rightarrow>
          (if isNameByte c then Inr ([], InStartName (s @ [c])) else inAttrs (plainName s) [] c)
      | InAttrs n attrs \<Rightarrow> inAttrs n attrs c
      | InAttrName n attrs s \<Rightarrow>
          (if isNameByte c then Inr ([], InAttrName n attrs (s @ [c]))
           else if c = CHR ''='' then Inr ([], AfterEq n attrs s)
           else if isSpace c then Inr ([], AfterAttrName n attrs s)
           else Inl outside)
      | AfterAttrName n attrs s \<Rightarrow>
          (if isSpace c then Inr ([], AfterAttrName n attrs s)
           else if c = CHR ''='' then Inr ([], AfterEq n attrs s)
           else Inl outside)
      | AfterEq n attrs s \<Rightarrow>
          (if isSpace c then Inr ([], AfterEq n attrs s)
           else if c = CHR 0x22 \<or> c = CHR 0x27 then Inr ([], InAttrValue n attrs s c [])
           else Inl outside)
      | InAttrValue n attrs s q v \<Rightarrow>
          (if c = q then Inr ([], InAttrs n (attrs @ [\<lparr>Name = plainName s, Value = v\<rparr>]))
           else if isPlain c then Inr ([], InAttrValue n attrs s q (v @ [c]))
           else Inl outside)
      | AfterSlash n attrs \<Rightarrow>
          (if c = CHR ''>'' then Inr ([StartElement n attrs, EndElement n], InText [])
           else Inl outside)
      | EndOpen \<Rightarrow> (if isLetter c then Inr ([], InEndName [c]) else Inl outside)
      | InEndName s \<Rightarrow>
          (if isNameByte c then Inr ([], InEndName (s @ [c])) else afterEndName (plainName s) c)
      | AfterEndName n \<Rightarrow> afterEndName n c)"

definition lexEnd :: "lexmode \<Rightarrow> token list \<times> lexend" where
  "lexEnd mode =
     (case mode of
        InText text \<Rightarrow> (if text = [] then [] else [CharData text], EOF)
      | _ \<Rightarrow> ([], LexError outside))"

fun lexer :: "lexmode \<Rightarrow> string \<Rightarrow> token list \<times> lexend" where
  "lexer mode [] = lexEnd mode"
| "lexer mode (c # cs) =
     (case lexStep mode c of
        Inl err \<Rightarrow> ([], LexError err)
      | Inr (toks, mode') \<Rightarrow> (case lexer mode' cs of (toks', fin) \<Rightarrow> (toks @ toks', fin)))"

definition goRawTokens :: "string \<Rightarrow> token list \<times> lexend" where
  "goRawTokens input = lexer (InText []) input"

text \<open>The pass on bytes with these two instances, \<open>rewrite\<close> in the specification.\<close>

definition rewrite :: "string \<Rightarrow> modification list \<Rightarrow> failure + string" where
  "rewrite input modifications = frobnicate goEncoder (goRawTokens input) modifications"


section \<open>The parser\<close>

lemma takeWhile_at_before_eq:
  assumes "CHR ''@'' \<in> set (takeWhile (\<lambda>c. c \<noteq> CHR ''='') s)"
  shows "takeWhile (\<lambda>c. c \<noteq> CHR ''@'') (takeWhile (\<lambda>c. c \<noteq> CHR ''='') s)
           = takeWhile (\<lambda>c. c \<noteq> CHR ''@'') s"
  using assms by (induction s) auto

lemma dropWhile_at_before_eq:
  assumes "CHR ''@'' \<in> set (takeWhile (\<lambda>c. c \<noteq> CHR ''='') s)"
  shows "tl (dropWhile (\<lambda>c. c \<noteq> CHR ''@'') (takeWhile (\<lambda>c. c \<noteq> CHR ''='') s))
           = takeWhile (\<lambda>c. c \<noteq> CHR ''='') (tl (dropWhile (\<lambda>c. c \<noteq> CHR ''@'') s))"
  using assms by (induction s) auto

lemma parse_step_bad:
  "malformed m \<Longrightarrow> parseModifications (m # ms) = Inl (Errorf m)"
  by (auto simp: malformed_def SplitN2_def Let_def)

lemma parse_step_good:
  "\<not> malformed m \<Longrightarrow> parseModifications (m # ms) =
     (case parseModifications ms of Inl err \<Rightarrow> Inl err | Inr r \<Rightarrow> Inr (modOf m # r))"
  by (auto simp: malformed_def SplitN2_def Let_def modOf_def takeWhile_at_before_eq
      dropWhile_at_before_eq split: sum.splits)

lemma parse_find:
  "parseModifications ss =
     (case List.find malformed ss of
        Some s \<Rightarrow> Inl (Errorf s)
      | None \<Rightarrow> Inr (map modOf ss))"
proof (induction ss)
  case Nil
  show ?case by simp
next
  case (Cons m ms)
  show ?case
  proof (cases "malformed m")
    case True
    then show ?thesis by (simp add: parse_step_bad del: parseModifications.simps)
  next
    case False
    then show ?thesis using Cons.IH
      by (simp add: parse_step_good del: parseModifications.simps split: option.splits)
  qed
qed

lemma modOf_form:
  assumes "CHR ''@'' \<notin> set p" "CHR ''='' \<notin> set p" "CHR ''='' \<notin> set a"
  shows "modOf (p @ ''@'' @ a @ ''='' @ v) = \<lparr>path = p, attribute = a, value' = v\<rparr>"
    and "\<not> malformed (p @ ''@'' @ a @ ''='' @ v)"
  using assms
  by (auto simp: modOf_def malformed_def takeWhile_append dropWhile_append
      takeWhile_eq_all_conv[THEN iffD2] dropWhile_eq_Nil_conv[THEN iffD2]
      takeWhile_tail dropWhile_append3)

section \<open>The attribute loops\<close>

lemma attrLoop_eq:
  "attrLoop pat i attrs = take i attrs @ map (setValue pat) (drop i attrs)"
proof (induction pat i attrs rule: attrLoop.induct)
  case (1 pat i attrs)
  show ?case
  proof (cases "i < length attrs")
    case False
    then show ?thesis by (simp add: attrLoop.simps[of pat i attrs])
  next
    case True
    define attrs' where "attrs' = attrs[i := setValue pat (attrs ! i)]"
    have same: "(if Local (Name (attrs ! i)) = attribute pat
                 then attrs[i := (attrs ! i)\<lparr>Value := value' pat\<rparr>] else attrs) = attrs'"
      by (simp add: attrs'_def setValue_def)
    have "attrLoop pat i attrs = attrLoop pat (Suc i) attrs'"
      using True same by (simp add: attrLoop.simps[of pat i attrs])
    also have "\<dots> = take (Suc i) attrs' @ map (setValue pat) (drop (Suc i) attrs')"
      using "1.IH"[OF True] same by simp
    also have "take (Suc i) attrs' = take i attrs @ [setValue pat (attrs ! i)]"
      using True by (simp add: attrs'_def take_Suc_conv_app_nth)
    also have "drop (Suc i) attrs' = drop (Suc i) attrs"
      by (simp add: attrs'_def)
    finally show ?thesis
      using True by (simp add: Cons_nth_drop_Suc[symmetric])
  qed
qed

lemma attrLoop_map: "attrLoop pat 0 attrs = map (setValue pat) attrs"
  by (simp add: attrLoop_eq)

lemma setValue_cases:
  "setValue m a = (if addresses (path m) a m then a\<lparr>Value := value' m\<rparr> else a)"
  by (simp add: setValue_def addresses_def)

lemma addresses_setValue [simp]: "addresses p (setValue m a) = addresses p a"
  by (rule ext) (simp add: setValue_def addresses_def)

lemma addresses_update [simp]: "addresses p (a\<lparr>Value := v\<rparr>) = addresses p a"
  by (rule ext) (simp add: addresses_def)

lemma addresses_sameKey: "sameKey m k \<Longrightarrow> addresses p a k = addresses p a m"
  by (auto simp: addresses_def sameKey_def)

lemma sameKey_addresses: "addresses p a m \<Longrightarrow> addresses p a k \<Longrightarrow> sameKey m k"
  by (auto simp: addresses_def sameKey_def)

lemma finalAttr_Cons:
  "finalAttr (m # ms) p a = finalAttr ms p (if p = path m then setValue m a else a)"
proof (cases "addresses p a m")
  case True
  then have "p = path m" by (simp add: addresses_def)
  with True show ?thesis by (simp add: finalAttr_def Let_def setValue_cases)
next
  case False
  then have "(if p = path m then setValue m a else a) = a"
    by (auto simp: setValue_cases)
  with False show ?thesis by (simp add: finalAttr_def Let_def)
qed

lemma patLoop_eq: "patLoop ms p attrs = map (finalAttr ms p) attrs"
proof (induction ms arbitrary: attrs)
  case Nil
  show ?case by (simp add: finalAttr_def)
next
  case (Cons m ms)
  show ?case by (simp add: Cons.IH attrLoop_map finalAttr_Cons)
qed

lemma Name_finalAttr [simp]: "Name (finalAttr ms p a) = Name a"
  by (simp add: finalAttr_def Let_def)

lemma addresses_finalAttr [simp]: "addresses p (finalAttr ms q a) = addresses p a"
  by (rule ext) (simp add: addresses_def)

lemma finalAttr_idem: "finalAttr ms p (finalAttr ms p a) = finalAttr ms p a"
  by (simp add: finalAttr_def Let_def)

lemma finalAttr_drop_earlier:
  assumes "sameKey m1 m2"
  shows "finalAttr (ms1 @ m1 # ms2 @ m2 # ms3) p a = finalAttr (ms1 @ ms2 @ m2 # ms3) p a"
proof -
  have eq: "addresses p a m2 = addresses p a m1" by (rule addresses_sameKey[OF assms])
  show ?thesis
    by (cases "addresses p a m1") (simp_all add: finalAttr_def Let_def eq)
qed

lemma filter_not_sameKey:
  "filter (\<lambda>k. \<not> sameKey m k \<and> addresses p a k) ms
     = (if addresses p a m then [] else filter (addresses p a) ms)"
proof (induction ms)
  case Nil
  show ?case by simp
next
  case (Cons k ms)
  show ?case
  proof (cases "addresses p a m")
    case True
    then have "addresses p a k \<Longrightarrow> sameKey m k" by (rule sameKey_addresses)
    with True Cons show ?thesis by auto
  next
    case False
    then have "addresses p a k \<Longrightarrow> \<not> sameKey m k" using addresses_sameKey by blast
    with False Cons show ?thesis by auto
  qed
qed

lemma finalAttr_setValue:
  "finalAttr (ms1 @ m # ms2) p a =
     finalAttr (filter (\<lambda>k. \<not> sameKey m k) ms1 @ ms2) p (if p = path m then setValue m a else a)"
proof (cases "addresses p a m")
  case True
  then have "p = path m" by (simp add: addresses_def)
  with True show ?thesis
    by (simp add: finalAttr_def Let_def setValue_cases filter_not_sameKey)
next
  case False
  then have "(if p = path m then setValue m a else a) = a"
    by (auto simp: setValue_cases)
  with False show ?thesis
    by (simp add: finalAttr_def Let_def filter_not_sameKey)
qed

lemma finalAttr_latest:
  assumes "\<forall>k \<in> set ms2. \<not> sameKey m k" "Local (Name a) = attribute m"
  shows "Value (finalAttr (ms1 @ m # ms2) (path m) a) = value' m"
proof -
  have m: "addresses (path m) a m" using assms(2) by (simp add: addresses_def)
  have "\<forall>k \<in> set ms2. \<not> addresses (path m) a k"
    using assms(1) sameKey_addresses[OF m] by blast
  then have "filter (addresses (path m) a) ms2 = []"
    by (simp add: filter_empty_conv)
  then show ?thesis using m by (simp add: finalAttr_def Let_def)
qed

section \<open>One token\<close>

lemma encode_Inr:
  "encode enc s tok = Inr s' \<Longrightarrow>
     \<exists>e b. EncodeToken enc (out s) tok = Inr (e, b) \<and> s' = s\<lparr>out := e, outbytes := outbytes s @ b\<rparr>"
  by (auto simp: encode_def split: sum.splits)

lemma selfClose_Inr:
  "selfClose enc s tok = Inr s' \<Longrightarrow>
     \<exists>e b. EncodeToken enc (Flush enc (out s)) tok = Inr (e, b)
        \<and> outbytes s \<noteq> [] \<and> last (outbytes s) = CHR ''>''
        \<and> s' = s\<lparr>out := Flush enc e, outbytes := butlast (outbytes s) @ ''/>'',
                 flushed := length (butlast (outbytes s) @ ''/>'')\<rparr>"
  by (auto simp: selfClose_def flush_def encode_def buffer_def Let_def butlast_conv_take
      split: sum.splits if_splits)

lemma Truncate_pop:
  "Truncate p (LastIndexByte p CHR ''/'') = Inr q \<Longrightarrow> q = pop p \<and> CHR ''/'' \<in> set p"
  by (auto simp: Truncate_def pop_def LastIndexByte_def split: if_splits)

lemma length_takeWhile_lt:
  "\<exists>x \<in> set xs. \<not> P x \<Longrightarrow> length (takeWhile P xs) < length xs"
  by (induction xs) auto

lemma Truncate_slash:
  "CHR ''/'' \<in> set p \<Longrightarrow> Truncate p (LastIndexByte p CHR ''/'') = Inr (pop p)"
proof -
  assume a: "CHR ''/'' \<in> set p"
  have "length (takeWhile (\<lambda>x. x \<noteq> CHR ''/'') (rev p)) < length (rev p)"
    using a by (intro length_takeWhile_lt) auto
  then show ?thesis using a by (simp add: Truncate_def pop_def LastIndexByte_def)
qed

lemma Truncate_no_slash:
  "CHR ''/'' \<notin> set p \<Longrightarrow>
     Truncate p (LastIndexByte p CHR ''/'') = Inl (Panic ''bytes.Buffer: truncation out of range'')"
  by (simp add: Truncate_def LastIndexByte_def)

lemma startElement_path:
  "startElement enc ms s n attrs = Inr s' \<Longrightarrow> path_buf s' = path_buf s @ ''/'' @ Local n"
  by (auto simp: startElement_def Let_def dest!: encode_Inr split: if_splits)

lemma endElement_path:
  "endElement enc s n = Inr s' \<Longrightarrow> path_buf s' = pop (path_buf s)"
  by (auto simp: endElement_def Let_def dest!: encode_Inr selfClose_Inr Truncate_pop
      split: if_splits sum.splits)

lemma otherToken_path:
  "otherToken enc s tok = Inr s' \<Longrightarrow> path_buf s' = path_buf s"
  by (auto simp: otherToken_def Let_def dest!: encode_Inr split: if_splits)

lemma startElement_edit:
  "startElement enc ms s n attrs
     = startElement enc [] s n (patLoop ms (path_buf s @ ''/'' @ Local n) attrs)"
  by (simp add: startElement_def Let_def)

lemma loop_edited:
  "loop enc ms s toks fin = loop enc [] s (edited ms (path_buf s) toks) fin"
proof (induction toks arbitrary: s)
  case Nil
  show ?case by (cases fin) simp_all
next
  case (Cons tok toks)
  show ?case
  proof (cases tok)
    case (StartElement n attrs)
    have "step enc ms s tok = step enc [] s (StartElement n (patLoop ms (path_buf s @ ''/'' @ Local n) attrs))"
      using StartElement startElement_edit[of enc ms s n attrs] by (simp add: step_def)
    moreover have "\<And>s'. step enc ms s tok = Inr s' \<Longrightarrow> path_buf s' = path_buf s @ ''/'' @ Local n"
      using StartElement by (simp add: step_def startElement_path)
    ultimately show ?thesis
      using StartElement Cons.IH by (auto split: sum.splits)
  next
    case (EndElement n)
    have "\<And>s'. step enc ms s tok = Inr s' \<Longrightarrow> path_buf s' = pop (path_buf s)"
      using EndElement by (simp add: step_def endElement_path)
    then show ?thesis
      using EndElement Cons.IH by (auto simp: step_def split: sum.splits)
  next
    case (CharData x)
    have "\<And>s'. step enc ms s tok = Inr s' \<Longrightarrow> path_buf s' = path_buf s"
      using CharData by (simp add: step_def otherToken_path)
    then show ?thesis
      using CharData Cons.IH by (auto simp: step_def split: sum.splits)
  next
    case (Comment x)
    have "\<And>s'. step enc ms s tok = Inr s' \<Longrightarrow> path_buf s' = path_buf s"
      using Comment by (simp add: step_def otherToken_path)
    then show ?thesis
      using Comment Cons.IH by (auto simp: step_def split: sum.splits)
  next
    case (ProcInst x y)
    have "\<And>s'. step enc ms s tok = Inr s' \<Longrightarrow> path_buf s' = path_buf s"
      using ProcInst by (simp add: step_def otherToken_path)
    then show ?thesis
      using ProcInst Cons.IH by (auto simp: step_def split: sum.splits)
  next
    case (Directive x)
    have "\<And>s'. step enc ms s tok = Inr s' \<Longrightarrow> path_buf s' = path_buf s"
      using Directive by (simp add: step_def otherToken_path)
    then show ?thesis
      using Directive Cons.IH by (auto simp: step_def split: sum.splits)
  qed
qed

lemma frobnicate_edited:
  "frobnicate enc (toks, fin) ms = frobnicate enc (edited ms [] toks, fin) []"
  using loop_edited[of enc ms "start enc" toks fin] by (simp add: frobnicate_def start_def)

lemma edited_Nil [simp]: "edited [] p toks = toks"
  by (induction "[]::modification list" p toks rule: edited.induct) simp_all

lemma edited_idem: "edited ms p (edited ms p toks) = edited ms p toks"
  by (induction ms p toks rule: edited.induct) (simp_all add: patLoop_eq finalAttr_idem)

lemma edited_drop_earlier:
  "sameKey m1 m2 \<Longrightarrow>
     edited (ms1 @ m1 # ms2 @ m2 # ms3) p toks = edited (ms1 @ ms2 @ m2 # ms3) p toks"
  by (induction "ms1 @ m1 # ms2 @ m2 # ms3" p toks rule: edited.induct)
     (simp_all add: patLoop_eq finalAttr_drop_earlier)

lemma patLoop_setValue:
  "patLoop (ms1 @ m # ms2) p attrs
     = patLoop (filter (\<lambda>k. \<not> sameKey m k) ms1 @ ms2) p
         (if p = path m then map (setValue m) attrs else attrs)"
proof (cases "p = path m")
  case True
  then show ?thesis using finalAttr_setValue[of ms1 m ms2 p] by (simp add: patLoop_eq)
next
  case False
  then show ?thesis using finalAttr_setValue[of ms1 m ms2 p] by (simp add: patLoop_eq)
qed

lemma edited_setAttr:
  "edited (ms1 @ m # ms2) p toks
     = edited (filter (\<lambda>k. \<not> sameKey m k) ms1 @ ms2) p (setAttr m p toks)"
  by (induction m p toks rule: setAttr.induct) (simp_all add: patLoop_setValue)

lemma step_start_plain:
  assumes "\<not> skip s" "path_buf s @ ''/'' @ Local n \<noteq> plugin"
  shows "step enc ms s (StartElement n attrs) =
     (case EncodeToken enc (out s) (StartElement n (patLoop ms (path_buf s @ ''/'' @ Local n) attrs)) of
        Inl err \<Rightarrow> Inl (EncodeError err)
      | Inr (e, b) \<Rightarrow>
          Inr (s\<lparr>outbytes := outbytes s @ b, out := e, previousWasStart := True,
                 path_buf := path_buf s @ ''/'' @ Local n\<rparr>))"
  using assms
  by (cases s) (auto simp: step_def startElement_def encode_def Let_def split: sum.splits)

lemma step_start_plugin:
  assumes "path_buf s @ ''/'' @ Local n = plugin"
  shows "step enc ms s (StartElement n attrs) =
     (if pluginNo s < 2
      then Inr (s\<lparr>previousWasStart := True, path_buf := plugin, skip := True,
                  pluginNo := pluginNo s + 1\<rparr>)
      else (case EncodeToken enc (out s) (StartElement n (patLoop ms plugin attrs)) of
        Inl err \<Rightarrow> Inl (EncodeError err)
      | Inr (e, b) \<Rightarrow>
          Inr (s\<lparr>outbytes := outbytes s @ b, out := e, previousWasStart := True,
                 path_buf := plugin, skip := False, pluginNo := pluginNo s + 1\<rparr>)))"
  using assms
  by (cases s) (auto simp: step_def startElement_def encode_def Let_def split: sum.splits)

lemma step_skipped:
  assumes "skip s" "\<forall>n attrs. tok \<noteq> StartElement n attrs"
  shows "step enc ms s tok =
     (case tok of
        EndElement n \<Rightarrow>
          (if CHR ''/'' \<in> set (path_buf s)
           then Inr (s\<lparr>path_buf := pop (path_buf s), skip := (path_buf s \<noteq> plugin)\<rparr>)
           else Inl (Panic ''bytes.Buffer: truncation out of range''))
      | _ \<Rightarrow> Inr (s\<lparr>previousWasStart := False\<rparr>))"
  using assms
  by (cases s; cases tok)
     (auto simp: step_def endElement_def otherToken_def Let_def Truncate_slash Truncate_no_slash)

lemma step_start_skipped:
  assumes "skip s" "path_buf s @ ''/'' @ Local n \<noteq> plugin"
  shows "step enc ms s (StartElement n attrs) =
     Inr (s\<lparr>previousWasStart := True, path_buf := path_buf s @ ''/'' @ Local n\<rparr>)"
  using assms
  by (cases s) (auto simp: step_def startElement_def Let_def)

lemma step_end_separate:
  assumes "\<not> skip s" "\<not> previousWasStart s" "CHR ''/'' \<in> set (path_buf s)"
  shows "step enc ms s (EndElement n) =
     (case EncodeToken enc (out s) (EndElement n) of
        Inl err \<Rightarrow> Inl (EncodeError err)
      | Inr (e, b) \<Rightarrow>
          Inr (s\<lparr>outbytes := outbytes s @ b, out := e, path_buf := pop (path_buf s)\<rparr>))"
  using assms
  by (cases s) (auto simp: step_def endElement_def encode_def Let_def Truncate_slash split: sum.splits)

lemma step_end_selfclose:
  assumes "\<not> skip s" "previousWasStart s" "CHR ''/'' \<in> set (path_buf s)"
  shows "step enc ms s (EndElement n) =
     (if outbytes s = [] then Inl (Panic ''index out of range [-1]'')
      else if last (outbytes s) \<noteq> CHR ''>''
      then Inl (Panic ''expected > token as last byte in output'')
      else (case EncodeToken enc (Flush enc (out s)) (EndElement n) of
        Inl err \<Rightarrow> Inl (EncodeError err)
      | Inr (e, b) \<Rightarrow>
          Inr (s\<lparr>outbytes := butlast (outbytes s) @ ''/>'', out := Flush enc e,
                 previousWasStart := False, path_buf := pop (path_buf s),
                 flushed := length (butlast (outbytes s) @ ''/>'')\<rparr>)))"
  using assms
  by (cases s)
     (auto simp: step_def endElement_def selfClose_def flush_def encode_def buffer_def Let_def Truncate_slash
        butlast_conv_take split: sum.splits)

lemma step_other_emit:
  assumes "\<not> skip s" "\<forall>n attrs. tok \<noteq> StartElement n attrs" "\<forall>n. tok \<noteq> EndElement n"
  shows "step enc ms s tok =
     (case EncodeToken enc (out s) tok of
        Inl err \<Rightarrow> Inl (EncodeError err)
      | Inr (e, b) \<Rightarrow>
          Inr (s\<lparr>outbytes := outbytes s @ b, out := e, previousWasStart := False\<rparr>))"
  using assms
  by (cases s; cases tok) (auto simp: step_def otherToken_def encode_def Let_def split: sum.splits)

section \<open>The whole pass\<close>

lemma serialize_other:
  assumes "\<not> (\<exists>n attrs n' rest. tok = StartElement n attrs \<and> toks = EndElement n' # rest)"
  shows "serialize enc e acc (tok # toks) =
     (case EncodeToken enc e tok of
        Inl err \<Rightarrow> Inl (EncodeError err)
      | Inr (e1, b1) \<Rightarrow> serialize enc e1 (acc @ b1) toks)"
proof (cases toks)
  case Nil
  show ?thesis unfolding Nil by simp
next
  case (Cons t rest)
  show ?thesis
  proof (cases tok)
    case (StartElement n attrs)
    then have "\<forall>n'. t \<noteq> EndElement n'" using assms Cons by simp
    then show ?thesis unfolding StartElement Cons by (cases t) (auto split: sum.splits)
  next
    case (EndElement n)
    show ?thesis unfolding EndElement by simp
  next
    case (CharData x)
    show ?thesis unfolding CharData by simp
  next
    case (Comment x)
    show ?thesis unfolding Comment by simp
  next
    case (ProcInst x y)
    show ?thesis unfolding ProcInst by simp
  next
    case (Directive x)
    show ?thesis unfolding Directive by simp
  qed
qed

lemma loop_Cons_Inr:
  "step enc ms s tok = Inr s' \<Longrightarrow> loop enc ms s (tok # toks) fin = loop enc ms s' toks fin"
  by simp

lemma loop_Cons_Inl:
  "step enc ms s tok = Inl f \<Longrightarrow> loop enc ms s (tok # toks) fin = Inl f"
  by simp

lemma loop_serialize_step:
  assumes st: "step enc [] s tok =
       (case EncodeToken enc (out s) tok of
          Inl err \<Rightarrow> Inl (EncodeError err)
        | Inr (e, b) \<Rightarrow> Inr (upd e b))"
    and ser: "serialize enc (out s) (outbytes s) (tok # rest) =
       (case EncodeToken enc (out s) tok of
          Inl err \<Rightarrow> Inl (EncodeError err)
        | Inr (e1, b1) \<Rightarrow> serialize enc e1 (outbytes s @ b1) rest)"
    and rec: "\<And>e b. EncodeToken enc (out s) tok = Inr (e, b) \<Longrightarrow>
       loop enc [] (upd e b) rest EOF = serialize enc e (outbytes s @ b) rest"
  shows "loop enc [] s (tok # rest) EOF = serialize enc (out s) (outbytes s) (tok # rest)"
proof (cases "EncodeToken enc (out s) tok")
  case (Inl err)
  then show ?thesis by (simp add: st ser)
next
  case (Inr r)
  obtain e b where r: "r = (e, b)" by (cases r)
  show ?thesis using rec[of e b] by (simp add: st ser Inr r)
qed

lemma loop_serialize:
  assumes "\<not> skip s" "plainPaths (path_buf s) toks"
    "previousWasStart s \<longrightarrow> (\<forall>n rest. toks \<noteq> EndElement n # rest)"
  shows "loop enc [] s toks EOF = serialize enc (out s) (outbytes s) toks"
  using assms
proof (induction toks arbitrary: s rule: length_induct)
  case (1 toks)
  have IH: "\<And>ys s'. length ys < length toks \<Longrightarrow> \<not> skip s' \<Longrightarrow> plainPaths (path_buf s') ys \<Longrightarrow>
      (previousWasStart s' \<longrightarrow> (\<forall>n rest. ys \<noteq> EndElement n # rest)) \<Longrightarrow>
      loop enc [] s' ys EOF = serialize enc (out s') (outbytes s') ys"
    using "1.IH" by blast
  show ?case
  proof (cases toks)
    case Nil
    then show ?thesis by (simp add: flush_def buffer_def)
  next
    case (Cons tok rest)
    show ?thesis
    proof (cases "\<exists>n attrs n' rest'. tok = StartElement n attrs \<and> rest = EndElement n' # rest'")
      case True
      then obtain n attrs n' rest' where
        tok: "tok = StartElement n attrs" and rest: "rest = EndElement n' # rest'" by blast
      have pp: "path_buf s @ ''/'' @ Local n \<noteq> plugin"
        "plainPaths (pop (path_buf s @ ''/'' @ Local n)) rest'"
        using "1.prems"(2) Cons tok rest by simp_all
      have ser: "serialize enc (out s) (outbytes s) toks =
        (case EncodeToken enc (out s) (StartElement n attrs) of
           Inl err \<Rightarrow> Inl (EncodeError err)
         | Inr (e1, b1) \<Rightarrow>
             if outbytes s @ b1 = [] then Inl (Panic ''index out of range [-1]'')
             else if last (outbytes s @ b1) \<noteq> CHR ''>''
             then Inl (Panic ''expected > token as last byte in output'')
             else (case EncodeToken enc (Flush enc e1) (EndElement n') of
                     Inl err \<Rightarrow> Inl (EncodeError err)
                   | Inr (e2, b2) \<Rightarrow>
                       serialize enc (Flush enc e2) (butlast (outbytes s @ b1) @ ''/>'') rest'))"
        unfolding Cons tok rest by (rule serialize.simps(2))
      have st: "step enc [] s (StartElement n attrs) =
        (case EncodeToken enc (out s) (StartElement n attrs) of
           Inl err \<Rightarrow> Inl (EncodeError err)
         | Inr (e, b) \<Rightarrow>
             Inr (s\<lparr>outbytes := outbytes s @ b, out := e, previousWasStart := True,
                    path_buf := path_buf s @ ''/'' @ Local n\<rparr>))"
        using "1.prems"(1) pp(1) by (simp add: step_start_plain)
      show ?thesis
      proof (cases "EncodeToken enc (out s) (StartElement n attrs)")
        case (Inl err)
        have "loop enc [] s toks EOF = Inl (EncodeError err)"
          unfolding Cons tok by (rule loop_Cons_Inl) (simp add: st Inl)
        then show ?thesis by (simp add: ser Inl)
      next
        case (Inr r)
        obtain e1 b1 where r: "r = (e1, b1)" by (cases r)
        define s1 where "s1 = s\<lparr>outbytes := outbytes s @ b1, out := e1, previousWasStart := True,
                    path_buf := path_buf s @ ''/'' @ Local n\<rparr>"
        have st1: "step enc [] s (StartElement n attrs) = Inr s1"
          by (simp add: st Inr r s1_def)
        have s1: "\<not> skip s1" "previousWasStart s1" "CHR ''/'' \<in> set (path_buf s1)"
          using "1.prems"(1) by (simp_all add: s1_def)
        have f1: "outbytes s1 = outbytes s @ b1" "out s1 = e1"
          "path_buf s1 = path_buf s @ ''/'' @ Local n"
          by (simp_all add: s1_def)
        have l1: "loop enc [] s toks EOF = loop enc [] s1 (EndElement n' # rest') EOF"
          unfolding Cons tok rest by (rule loop_Cons_Inr[OF st1])
        note st2 = step_end_selfclose[OF s1, of enc "[]" n']
        have ser1: "serialize enc (out s) (outbytes s) toks =
          (if outbytes s1 = [] then Inl (Panic ''index out of range [-1]'')
           else if last (outbytes s1) \<noteq> CHR ''>''
           then Inl (Panic ''expected > token as last byte in output'')
           else (case EncodeToken enc (Flush enc e1) (EndElement n') of
                   Inl err \<Rightarrow> Inl (EncodeError err)
                 | Inr (e2, b2) \<Rightarrow>
                     serialize enc (Flush enc e2) (butlast (outbytes s1) @ ''/>'') rest'))"
          unfolding f1(1) ser Inr r by simp
        show ?thesis
        proof (cases "outbytes s1 = []")
          case True
          then show ?thesis unfolding l1 ser1 by (simp add: st2)
        next
          case nonempty: False
          show ?thesis
          proof (cases "last (outbytes s1) \<noteq> CHR ''>''")
            case True
            then show ?thesis unfolding l1 ser1 using nonempty by (simp add: st2)
          next
            case gt: False
            show ?thesis
            proof (cases "EncodeToken enc (Flush enc e1) (EndElement n')")
              case (Inl err)
              then show ?thesis unfolding l1 ser1 using nonempty gt by (simp add: st2 f1)
            next
              case (Inr r2)
              obtain e2 b2 where r2: "r2 = (e2, b2)" by (cases r2)
              define s2 where "s2 = s1\<lparr>outbytes := butlast (outbytes s1) @ ''/>'', out := Flush enc e2,
                 previousWasStart := False, path_buf := pop (path_buf s1),
                 flushed := length (butlast (outbytes s1) @ ''/>'')\<rparr>"
              have step2: "step enc [] s1 (EndElement n') = Inr s2"
                using nonempty gt by (simp add: st2 f1 Inr r2 s2_def)
              have pre: "\<not> skip s2" "plainPaths (path_buf s2) rest'" "\<not> previousWasStart s2"
                using s1(1) pp(2) by (simp_all add: s2_def f1)
              have len: "length rest' < length toks" by (simp add: Cons rest)
              have "loop enc [] s2 rest' EOF = serialize enc (out s2) (outbytes s2) rest'"
                using IH[OF len pre(1) pre(2)] pre(3) by simp
              moreover have "out s2 = Flush enc e2" "outbytes s2 = butlast (outbytes s1) @ ''/>''"
                by (simp_all add: s2_def)
              moreover have "loop enc [] s1 (EndElement n' # rest') EOF = loop enc [] s2 rest' EOF"
                by (rule loop_Cons_Inr[OF step2])
              ultimately show ?thesis
                unfolding l1 ser1 using nonempty gt by (simp add: Inr r2)
            qed
          qed
        qed
      qed
    next
      case False
      note ser = serialize_other[OF False, of enc "out s" "outbytes s"]
      have len: "length rest < length toks" by (simp add: Cons)
      consider (StartElement) n attrs where "tok = StartElement n attrs"
        | (EndElement) n where "tok = EndElement n"
        | (other) "\<forall>n attrs. tok \<noteq> StartElement n attrs" "\<forall>n. tok \<noteq> EndElement n"
        by (cases tok) auto
      then show ?thesis
      proof cases
        case (StartElement n attrs)
        have pp: "path_buf s @ ''/'' @ Local n \<noteq> plugin"
          "plainPaths (path_buf s @ ''/'' @ Local n) rest"
          using "1.prems"(2) Cons StartElement by simp_all
        have noend: "\<forall>n rest'. rest \<noteq> EndElement n # rest'"
          using False StartElement by simp
        show ?thesis unfolding Cons StartElement
        proof (rule loop_serialize_step)
          show "step enc [] s (StartElement n attrs) =
            (case EncodeToken enc (out s) (StartElement n attrs) of
               Inl err \<Rightarrow> Inl (EncodeError err)
             | Inr (e, b) \<Rightarrow>
                 Inr (s\<lparr>outbytes := outbytes s @ b, out := e, previousWasStart := True,
                        path_buf := path_buf s @ ''/'' @ Local n\<rparr>))"
            using "1.prems"(1) pp(1) by (simp add: step_start_plain)
          show "serialize enc (out s) (outbytes s) (StartElement n attrs # rest) =
            (case EncodeToken enc (out s) (StartElement n attrs) of
               Inl err \<Rightarrow> Inl (EncodeError err)
             | Inr (e1, b1) \<Rightarrow> serialize enc e1 (outbytes s @ b1) rest)"
            using ser StartElement by simp
          fix e b
          show "loop enc [] (s\<lparr>outbytes := outbytes s @ b, out := e, previousWasStart := True,
                        path_buf := path_buf s @ ''/'' @ Local n\<rparr>) rest EOF
                  = serialize enc e (outbytes s @ b) rest"
            using IH[OF len, of "s\<lparr>outbytes := outbytes s @ b, out := e, previousWasStart := True,
                        path_buf := path_buf s @ ''/'' @ Local n\<rparr>"] "1.prems"(1) pp(2) noend
            by simp
        qed
      next
        case (EndElement n)
        have pp: "CHR ''/'' \<in> set (path_buf s)" "plainPaths (pop (path_buf s)) rest"
          using "1.prems"(2) Cons EndElement by simp_all
        have npws: "\<not> previousWasStart s"
          using "1.prems"(3) Cons EndElement by simp
        show ?thesis unfolding Cons EndElement
        proof (rule loop_serialize_step)
          show "step enc [] s (EndElement n) =
            (case EncodeToken enc (out s) (EndElement n) of
               Inl err \<Rightarrow> Inl (EncodeError err)
             | Inr (e, b) \<Rightarrow>
                 Inr (s\<lparr>outbytes := outbytes s @ b, out := e, path_buf := pop (path_buf s)\<rparr>))"
            using "1.prems"(1) npws pp(1) by (simp add: step_end_separate)
          show "serialize enc (out s) (outbytes s) (EndElement n # rest) =
            (case EncodeToken enc (out s) (EndElement n) of
               Inl err \<Rightarrow> Inl (EncodeError err)
             | Inr (e1, b1) \<Rightarrow> serialize enc e1 (outbytes s @ b1) rest)"
            using ser EndElement by simp
          fix e b
          show "loop enc [] (s\<lparr>outbytes := outbytes s @ b, out := e, path_buf := pop (path_buf s)\<rparr>) rest EOF
                  = serialize enc e (outbytes s @ b) rest"
            using IH[OF len, of "s\<lparr>outbytes := outbytes s @ b, out := e, path_buf := pop (path_buf s)\<rparr>"]
              "1.prems"(1) pp(2) npws
            by simp
        qed
      next
        case other
        then have pp: "plainPaths (path_buf s) rest"
          using "1.prems"(2) Cons by (cases tok) simp_all
        show ?thesis unfolding Cons
        proof (rule loop_serialize_step)
          show "step enc [] s tok =
            (case EncodeToken enc (out s) tok of
               Inl err \<Rightarrow> Inl (EncodeError err)
             | Inr (e, b) \<Rightarrow>
                 Inr (s\<lparr>outbytes := outbytes s @ b, out := e, previousWasStart := False\<rparr>))"
            using "1.prems"(1) other by (simp add: step_other_emit)
          show "serialize enc (out s) (outbytes s) (tok # rest) =
            (case EncodeToken enc (out s) tok of
               Inl err \<Rightarrow> Inl (EncodeError err)
             | Inr (e1, b1) \<Rightarrow> serialize enc e1 (outbytes s @ b1) rest)"
            by (rule ser)
          fix e b
          show "loop enc [] (s\<lparr>outbytes := outbytes s @ b, out := e, previousWasStart := False\<rparr>) rest EOF
                  = serialize enc e (outbytes s @ b) rest"
            using IH[OF len, of "s\<lparr>outbytes := outbytes s @ b, out := e, previousWasStart := False\<rparr>"]
              "1.prems"(1) pp
            by simp
        qed
      qed
    qed
  qed
qed

lemma plainPaths_edited [simp]: "plainPaths p (edited ms p toks) = plainPaths p toks"
  by (induction ms p toks rule: edited.induct) simp_all

text \<open>
  On an input in which no start tag reaches the path \<open>plugin\<close>, the pass returns the
  serialisation of the edited tokens, errors of the encoder included.
\<close>

lemma frobnicate_serialize:
  "plainPaths [] toks \<Longrightarrow>
     frobnicate enc (toks, EOF) ms = serialize enc (NewEncoder enc) [] (edited ms [] toks)"
  using frobnicate_edited[of enc toks EOF ms]
    loop_serialize[of "start enc" "edited ms [] toks" enc]
  by (simp add: frobnicate_def start_def)

text \<open>
  An encoder that echoes the lexemes serialises their tokens to the input in the
  self-closing form; and that is the input itself when every element of an empty body
  is self-closed there.
\<close>

lemma echoes_other:
  assumes "\<not> (\<exists>n attrs n' b' rest. tok = StartElement n attrs \<and> lx = (EndElement n', b') # rest)"
  shows "echoes enc e ((tok, b) # lx) =
     (case EncodeToken enc e tok of
        Inl err \<Rightarrow> False
      | Inr (e1, b1) \<Rightarrow> b1 = b \<and> echoes enc e1 lx)"
proof (cases lx)
  case Nil
  show ?thesis unfolding Nil by simp
next
  case (Cons l rest)
  obtain t b' where l: "l = (t, b')" by (cases l)
  show ?thesis
  proof (cases tok)
    case (StartElement n attrs)
    then have "\<forall>n'. t \<noteq> EndElement n'" using assms Cons l by simp
    then show ?thesis unfolding StartElement Cons l by (cases t) (auto split: sum.splits)
  next
    case (EndElement n)
    show ?thesis unfolding EndElement by simp
  next
    case (CharData x)
    show ?thesis unfolding CharData by simp
  next
    case (Comment x)
    show ?thesis unfolding Comment by simp
  next
    case (ProcInst x y)
    show ?thesis unfolding ProcInst by simp
  next
    case (Directive x)
    show ?thesis unfolding Directive by simp
  qed
qed

lemma selfClosing_other:
  assumes "\<not> (\<exists>n attrs n' b' rest. tok = StartElement n attrs \<and> lx = (EndElement n', b') # rest)"
  shows "selfClosing ((tok, b) # lx) = b @ selfClosing lx"
proof (cases lx)
  case Nil
  show ?thesis unfolding Nil by simp
next
  case (Cons l rest)
  obtain t b' where l: "l = (t, b')" by (cases l)
  show ?thesis
  proof (cases tok)
    case (StartElement n attrs)
    then have "\<forall>n'. t \<noteq> EndElement n'" using assms Cons l by simp
    then show ?thesis unfolding StartElement Cons l by (cases t) auto
  next
    case (EndElement n)
    show ?thesis unfolding EndElement by simp
  next
    case (CharData x)
    show ?thesis unfolding CharData by simp
  next
    case (Comment x)
    show ?thesis unfolding Comment by simp
  next
    case (ProcInst x y)
    show ?thesis unfolding ProcInst by simp
  next
    case (Directive x)
    show ?thesis unfolding Directive by simp
  qed
qed

lemma echoes_serialize:
  "echoes enc e lx \<Longrightarrow> serialize enc e acc (map fst lx) = Inr (acc @ selfClosing lx)"
proof (induction lx arbitrary: e acc rule: length_induct)
  case (1 lx)
  have IH: "\<And>ys e' acc'. length ys < length lx \<Longrightarrow> echoes enc e' ys \<Longrightarrow>
      serialize enc e' acc' (map fst ys) = Inr (acc' @ selfClosing ys)"
    using "1.IH" by blast
  show ?case
  proof (cases lx)
    case Nil
    then show ?thesis by simp
  next
    case (Cons l rest)
    obtain tok b where l: "l = (tok, b)" by (cases l)
    show ?thesis
    proof (cases "\<exists>n attrs n' b' rest'. tok = StartElement n attrs \<and> rest = (EndElement n', b') # rest'")
      case True
      then obtain n attrs n' b' rest' where
        tok: "tok = StartElement n attrs" and rest: "rest = (EndElement n', b') # rest'"
        by blast
      have ec: "echoes enc e ((StartElement n attrs, b) # (EndElement n', b') # rest')"
        using "1.prems" by (simp add: Cons l tok rest)
      obtain e1 b1 where t1: "EncodeToken enc e (StartElement n attrs) = Inr (e1, b1)"
        using ec by (auto split: sum.splits)
      have p1: "b1 = openTag b" "b1 \<noteq> []" "last b1 = CHR ''>''"
        using ec t1 by auto
      obtain e2 b2 where t2: "EncodeToken enc (Flush enc e1) (EndElement n') = Inr (e2, b2)"
        using ec t1 by (auto split: sum.splits)
      have ec': "echoes enc (Flush enc e2) rest'" using ec t1 t2 by simp
      have "length rest' < length lx" by (simp add: Cons rest)
      from IH[OF this ec', of "butlast (acc @ b1) @ ''/>''"]
      have "serialize enc (Flush enc e2) (butlast (acc @ b1) @ ''/>'') (map fst rest')
              = Inr ((butlast (acc @ b1) @ ''/>'') @ selfClosing rest')" .
      then show ?thesis
        using t1 t2 p1 by (simp add: Cons l tok rest butlast_append)
    next
      case False
      have ec: "echoes enc e ((tok, b) # rest)" using "1.prems" by (simp add: Cons l)
      note eo = echoes_other[OF False, of enc e b]
      obtain e1 b1 where t1: "EncodeToken enc e tok = Inr (e1, b1)"
        using ec unfolding eo by (auto split: sum.splits)
      have p1: "b1 = b" "echoes enc e1 rest" using ec t1 unfolding eo by simp_all
      have F': "\<not> (\<exists>n attrs n' rest'. tok = StartElement n attrs \<and> map fst rest = EndElement n' # rest')"
        using False by (cases rest) auto
      have "length rest < length lx" by (simp add: Cons)
      from IH[OF this p1(2), of "acc @ b1"]
      have "serialize enc e1 (acc @ b1) (map fst rest) = Inr ((acc @ b1) @ selfClosing rest)" .
      then show ?thesis
        using t1 p1(1) by (simp add: Cons l serialize_other[OF F'] selfClosing_other[OF False])
    qed
  qed
qed

lemma selfClosed_openTag: "selfClosed b \<Longrightarrow> butlast (openTag b) @ ''/>'' = b"
proof -
  assume a: "selfClosed b"
  then have "take (length b - 2) b @ ''/>'' = take (length b - 2) b @ drop (length b - 2) b"
    by (simp add: selfClosed_def)
  then show ?thesis using a by (simp add: openTag_def)
qed

lemma selfClosing_same: "emptiesSelfClosed lx \<Longrightarrow> selfClosing lx = concat (map snd lx)"
  by (induction lx rule: selfClosing.induct) (simp_all add: selfClosed_openTag)


lemma loop_run:
  "loop enc ms s toks fin =
     (case run enc ms s toks of Inl f \<Rightarrow> Inl f | Inr s' \<Rightarrow> loop enc ms s' [] fin)"
  by (induction toks arbitrary: s) (auto split: sum.splits)

lemma step_pluginNo:
  "step enc ms s tok = Inr s' \<Longrightarrow>
     pluginNo s' = pluginNo s +
       (if \<exists>n attrs. tok = StartElement n attrs \<and> path_buf s @ ''/'' @ Local n = plugin
        then 1 else 0)"
  by (cases tok)
     (auto simp: step_def startElement_def endElement_def otherToken_def Let_def
        dest!: encode_Inr selfClose_Inr split: if_splits sum.splits)

lemma run_pluginNo: "run enc ms s toks = Inr s' \<Longrightarrow> pluginNo s \<le> pluginNo s'"
proof (induction toks arbitrary: s)
  case Nil
  then show ?case by simp
next
  case (Cons tok toks)
  then obtain s1 where 1: "step enc ms s tok = Inr s1" and 2: "run enc ms s1 toks = Inr s'"
    by (auto split: sum.splits)
  from step_pluginNo[OF 1] Cons.IH[OF 2] show ?case by simp
qed

text \<open>
  Outside a suppressed subtree, a start tag that the encoder ends with \<open>>\<close> and that is
  directly followed by an end tag leaves the self-closing form in the buffer; and an end
  tag that does not follow a start tag is written after what the buffer holds.
\<close>

lemma empty_element_self_closes:
  assumes "\<not> skip s" "path_buf s @ ''/'' @ Local n \<noteq> plugin"
    and "EncodeToken enc (out s) (StartElement n (patLoop ms (path_buf s @ ''/'' @ Local n) attrs)) = Inr (e1, b1)"
    and "b1 \<noteq> []" "last b1 = CHR ''>''"
    and "EncodeToken enc (Flush enc e1) (EndElement n') = Inr (e2, b2)"
  shows "\<exists>s'. run enc ms s [StartElement n attrs, EndElement n'] = Inr s'
           \<and> outbytes s' = outbytes s @ butlast b1 @ ''/>''"
proof -
  define s1 where "s1 = s\<lparr>outbytes := outbytes s @ b1, out := e1, previousWasStart := True,
                 path_buf := path_buf s @ ''/'' @ Local n\<rparr>"
  have st1: "step enc ms s (StartElement n attrs) = Inr s1"
    using assms(1,2,3) by (simp add: step_start_plain s1_def)
  have s1: "\<not> skip s1" "previousWasStart s1" "CHR ''/'' \<in> set (path_buf s1)"
    using assms(1) by (simp_all add: s1_def)
  have f1: "outbytes s1 = outbytes s @ b1" "out s1 = e1" by (simp_all add: s1_def)
  have "step enc ms s1 (EndElement n') =
      Inr (s1\<lparr>outbytes := butlast (outbytes s1) @ ''/>'', out := Flush enc e2,
               previousWasStart := False, path_buf := pop (path_buf s1),
               flushed := length (butlast (outbytes s1) @ ''/>'')\<rparr>)"
    using assms(4,5,6) by (simp add: step_end_selfclose[OF s1] f1)
  then show ?thesis using st1 assms(4) by (simp add: f1 butlast_append)
qed

lemma end_tag_written_separately:
  assumes "\<not> skip s" "\<not> previousWasStart s" "CHR ''/'' \<in> set (path_buf s)"
    and "EncodeToken enc (out s) (EndElement n) = Inr (e, b)"
  shows "\<exists>s'. step enc ms s (EndElement n) = Inr s' \<and> outbytes s' = outbytes s @ b"
  using assms by (simp add: step_end_separate)

section \<open>The claims\<close>

text \<open>
  C4, as amended. \<open>parseModifications\<close> fails exactly when some string has no \<open>=\<close> or has
  no \<open>@\<close> before its first \<open>=\<close>; the error is the message of \<open>Errorf\<close> around the
  first such string, verbatim; otherwise every string is cut at its first \<open>@\<close> and at
  its first \<open>=\<close>, so that \<open>PATH@ATTR=VALUE\<close> yields its three parts. Further \<open>@\<close>
  before the \<open>=\<close> are accepted: they belong to the attribute.
\<close>

theorem parseModifications_fails_iff_malformed:
  "((\<exists>err. parseModifications ss = Inl err) \<longleftrightarrow> (\<exists>s \<in> set ss. malformed s))
   \<and> (List.find malformed ss = Some s \<longrightarrow>
        parseModifications ss = Inl (''Invalid mod \"'' @ s @ ''\": expected syntax /xml/path@attr=newValue''))
   \<and> ((\<forall>s \<in> set ss. \<not> malformed s) \<longrightarrow> parseModifications ss = Inr (map modOf ss))
   \<and> (CHR ''@'' \<notin> set p \<and> CHR ''='' \<notin> set p \<and> CHR ''='' \<notin> set a \<longrightarrow>
        \<not> malformed (p @ ''@'' @ a @ ''='' @ v)
        \<and> modOf (p @ ''@'' @ a @ ''='' @ v) = \<lparr>path = p, attribute = a, value' = v\<rparr>)"
proof -
  have result: "parseModifications ss =
      (case List.find malformed ss of Some s \<Rightarrow> Inl (Errorf s) | None \<Rightarrow> Inr (map modOf ss))"
    by (rule parse_find)
  have none: "List.find malformed ss = None \<longleftrightarrow> (\<forall>s \<in> set ss. \<not> malformed s)"
    by (auto simp: find_None_iff)
  have 1: "(\<exists>err. parseModifications ss = Inl err) \<longleftrightarrow> (\<exists>s \<in> set ss. malformed s)"
    using none by (cases "List.find malformed ss") (auto simp: result)
  have 2: "List.find malformed ss = Some s \<longrightarrow>
        parseModifications ss = Inl (''Invalid mod \"'' @ s @ ''\": expected syntax /xml/path@attr=newValue'')"
    by (simp add: result Errorf_def)
  have 3: "(\<forall>s \<in> set ss. \<not> malformed s) \<longrightarrow> parseModifications ss = Inr (map modOf ss)"
  proof
    assume "\<forall>s \<in> set ss. \<not> malformed s"
    then have "List.find malformed ss = None" using none by blast
    then show "parseModifications ss = Inr (map modOf ss)" by (simp add: result)
  qed
  show ?thesis using 1 2 3 modOf_form[of p a v] by blast
qed

theorem parseModifications_fails_iff_malformed_witness:
  "parseModifications [''/foo/bar@attr=val'', ''foo=bar'', ''zzz'']
     = Inl ''Invalid mod \"foo=bar\": expected syntax /xml/path@attr=newValue''
   \<and> parseModifications [''/foo/bar@attr=val'', ''a@b@c=d=e'']
     = Inr [\<lparr>path = ''/foo/bar'', attribute = ''attr'', value' = ''val''\<rparr>,
            \<lparr>path = ''a'', attribute = ''b@c'', value' = ''d=e''\<rparr>]
   \<and> CHR ''@'' \<notin> set ''/foo/bar'' \<and> CHR ''='' \<notin> set ''/foo/bar'' \<and> CHR ''='' \<notin> set ''attr''
   \<and> modOf (''/foo/bar'' @ ''@'' @ ''attr'' @ ''='' @ ''val'')
     = \<lparr>path = ''/foo/bar'', attribute = ''attr'', value' = ''val''\<rparr>"
proof -
  have f: "List.find malformed [''/foo/bar@attr=val'', ''foo=bar'', ''zzz''] = Some ''foo=bar''"
    by (simp add: malformed_def)
  have g: "\<forall>s \<in> set [''/foo/bar@attr=val'', ''a@b@c=d=e'']. \<not> malformed s"
    by (simp add: malformed_def)
  have h: "CHR ''@'' \<notin> set ''/foo/bar'' \<and> CHR ''='' \<notin> set ''/foo/bar'' \<and> CHR ''='' \<notin> set ''attr''"
    by simp
  from parseModifications_fails_iff_malformed
         [of "[''/foo/bar@attr=val'', ''foo=bar'', ''zzz'']" "''foo=bar''"] f
  have 1: "parseModifications [''/foo/bar@attr=val'', ''foo=bar'', ''zzz'']
     = Inl ''Invalid mod \"foo=bar\": expected syntax /xml/path@attr=newValue''"
    by simp
  from parseModifications_fails_iff_malformed
         [of "[''/foo/bar@attr=val'', ''a@b@c=d=e'']"] g
  have 2: "parseModifications [''/foo/bar@attr=val'', ''a@b@c=d=e'']
     = Inr (map modOf [''/foo/bar@attr=val'', ''a@b@c=d=e''])"
    by blast
  from parseModifications_fails_iff_malformed [of _ _ "''/foo/bar''" "''attr''" "''val''"] h
  have 3: "modOf (''/foo/bar'' @ ''@'' @ ''attr'' @ ''='' @ ''val'')
     = \<lparr>path = ''/foo/bar'', attribute = ''attr'', value' = ''val''\<rparr>"
    by blast
  show ?thesis using 1 2 3 h by (simp add: modOf_def)
qed

text \<open>
  C4 as stated fails: a string with two \<open>@\<close> before its first \<open>=\<close> is not rejected.
\<close>

theorem parseModifications_accepts_two_at:
  "parseModifications [''a@b@c=d''] = Inr [\<lparr>path = ''a'', attribute = ''b@c'', value' = ''d''\<rparr>]"
  by (simp add: SplitN2_def)

text \<open>
  C5, as amended. A string whose \<open>PATH\<close> part is empty, \<open>@ATTR=VALUE\<close>, is accepted:
  the parser returns a modification with the empty path, and it has no test of the path
  at all. (No element has the empty path, so such a modification changes nothing.)
\<close>

theorem parseModifications_accepts_empty_path:
  "CHR ''='' \<notin> set a \<Longrightarrow>
     parseModifications [''@'' @ a @ ''='' @ v] = Inr [\<lparr>path = [], attribute = a, value' = v\<rparr>]"
  by (simp add: SplitN2_def takeWhile_append dropWhile_append takeWhile_eq_all_conv[THEN iffD2]
      dropWhile_eq_Nil_conv[THEN iffD2] takeWhile_tail dropWhile_append3)

theorem parseModifications_accepts_empty_path_witness:
  "CHR ''='' \<notin> set ''attr''
   \<and> parseModifications [''@'' @ ''attr'' @ ''='' @ ''val''] = Inr [\<lparr>path = [], attribute = ''attr'', value' = ''val''\<rparr>]"
proof -
  have h: "CHR ''='' \<notin> set ''attr''" by simp
  show ?thesis using h parseModifications_accepts_empty_path [OF h, of "''val''"] by blast
qed

text \<open>C5 as stated fails: \<open>@attr=val\<close> parses, and the path of the result is empty.\<close>

theorem parseModifications_empty_path_counterexample:
  "parseModifications [''@attr=val''] = Inr [\<lparr>path = [], attribute = ''attr'', value' = ''val''\<rparr>]"
  by (simp add: SplitN2_def)

text \<open>
  C6, as amended. When a modification matches the path of a start tag, the inner loop
  replaces the value of every attribute whose local name is the modification's
  attribute: the first one and every later duplicate alike. No attribute with that name
  keeps its value.
\<close>

theorem attrLoop_replaces_every_duplicate:
  "attrLoop pat 0 attrs
     = map (\<lambda>a. if Local (Name a) = attribute pat then a\<lparr>Value := value' pat\<rparr> else a) attrs
   \<and> patLoop [pat] (path pat) attrs = attrLoop pat 0 attrs
   \<and> (\<forall>a \<in> set (patLoop [pat] (path pat) attrs).
         Local (Name a) = attribute pat \<longrightarrow> Value a = value' pat)"
proof -
  have 1: "attrLoop pat 0 attrs
     = map (\<lambda>a. if Local (Name a) = attribute pat then a\<lparr>Value := value' pat\<rparr> else a) attrs"
    using attrLoop_map[of pat attrs] by (simp add: setValue_def[abs_def])
  have 2: "patLoop [pat] (path pat) attrs = attrLoop pat 0 attrs" by simp
  show ?thesis unfolding 2 using 1 by auto
qed

theorem attrLoop_replaces_every_duplicate_witness:
  "patLoop [\<lparr>path = ''/a'', attribute = ''x'', value' = ''9''\<rparr>] ''/a''
     [\<lparr>Name = \<lparr>Space = [], Local = ''x''\<rparr>, Value = ''1''\<rparr>,
      \<lparr>Name = \<lparr>Space = [], Local = ''y''\<rparr>, Value = ''2''\<rparr>,
      \<lparr>Name = \<lparr>Space = [], Local = ''x''\<rparr>, Value = ''3''\<rparr>]
   = [\<lparr>Name = \<lparr>Space = [], Local = ''x''\<rparr>, Value = ''9''\<rparr>,
      \<lparr>Name = \<lparr>Space = [], Local = ''y''\<rparr>, Value = ''2''\<rparr>,
      \<lparr>Name = \<lparr>Space = [], Local = ''x''\<rparr>, Value = ''9''\<rparr>]"
  using attrLoop_replaces_every_duplicate
    [of "\<lparr>path = ''/a'', attribute = ''x'', value' = ''9''\<rparr>"
        "[\<lparr>Name = \<lparr>Space = [], Local = ''x''\<rparr>, Value = ''1''\<rparr>,
          \<lparr>Name = \<lparr>Space = [], Local = ''y''\<rparr>, Value = ''2''\<rparr>,
          \<lparr>Name = \<lparr>Space = [], Local = ''x''\<rparr>, Value = ''3''\<rparr>]"]
  by simp

text \<open>
  C6 as stated fails: of two attributes \<open>x\<close> on one start tag, the later one does not
  keep its value.
\<close>

theorem later_duplicate_replaced_counterexample:
  "rewrite ''<a x=\"1\" x=\"2\"/>'' [\<lparr>path = ''/a'', attribute = ''x'', value' = ''9''\<rparr>]
     = Inr ''<a x=\"9\" x=\"9\"/>''"
  by code_simp

text \<open>
  C10. The attributes that leave the loops over the modifications are those of
  \<open>finalAttr\<close>: an attribute that some modification addresses at this path has the value
  of the last such modification of the list. So an earlier modification for the same
  path and attribute as a later one changes nothing in the result of the pass.
\<close>

theorem later_modification_wins:
  "patLoop modifications p attrs = map (finalAttr modifications p) attrs
   \<and> (sameKey m1 m2 \<longrightarrow>
        frobnicate enc inp (ms1 @ m1 # ms2 @ m2 # ms3) = frobnicate enc inp (ms1 @ ms2 @ m2 # ms3))"
proof -
  have "frobnicate enc inp (ms1 @ m1 # ms2 @ m2 # ms3) = frobnicate enc inp (ms1 @ ms2 @ m2 # ms3)"
    if k: "sameKey m1 m2"
  proof -
    obtain toks fin where inp: "inp = (toks, fin)" by (cases inp)
    show ?thesis unfolding inp
      using frobnicate_edited[of enc toks fin "ms1 @ m1 # ms2 @ m2 # ms3"]
        frobnicate_edited[of enc toks fin "ms1 @ ms2 @ m2 # ms3"]
        edited_drop_earlier[OF k, of ms1 ms2 ms3 "[]" toks]
      by simp
  qed
  then show ?thesis by (simp add: patLoop_eq)
qed

theorem later_modification_wins_witness:
  "sameKey \<lparr>path = ''/a'', attribute = ''x'', value' = ''1''\<rparr>
           \<lparr>path = ''/a'', attribute = ''x'', value' = ''2''\<rparr>
   \<and> frobnicate goEncoder (goRawTokens ''<a x=\"0\" y=\"0\"/>'')
        [\<lparr>path = ''/a'', attribute = ''x'', value' = ''1''\<rparr>,
         \<lparr>path = ''/a'', attribute = ''y'', value' = ''5''\<rparr>,
         \<lparr>path = ''/a'', attribute = ''x'', value' = ''2''\<rparr>]
      = Inr ''<a x=\"2\" y=\"5\"/>''"
proof -
  have k: "sameKey \<lparr>path = ''/a'', attribute = ''x'', value' = ''1''\<rparr>
                   \<lparr>path = ''/a'', attribute = ''x'', value' = ''2''\<rparr>"
    by (simp add: sameKey_def)
  have e: "frobnicate goEncoder (goRawTokens ''<a x=\"0\" y=\"0\"/>'')
        ([] @ [\<lparr>path = ''/a'', attribute = ''y'', value' = ''5''\<rparr>]
            @ \<lparr>path = ''/a'', attribute = ''x'', value' = ''2''\<rparr> # [])
      = Inr ''<a x=\"2\" y=\"5\"/>''"
    by code_simp
  from later_modification_wins
    [of _ _ _ "\<lparr>path = ''/a'', attribute = ''x'', value' = ''1''\<rparr>"
        "\<lparr>path = ''/a'', attribute = ''x'', value' = ''2''\<rparr>"
        goEncoder "goRawTokens ''<a x=\"0\" y=\"0\"/>''" "[]"
        "[\<lparr>path = ''/a'', attribute = ''y'', value' = ''5''\<rparr>]" "[]"] k e
  show ?thesis by simp
qed


text \<open>
  C1, as amended. A modification \<open>m\<close> acts as if its value had been written into the
  input beforehand: the pass with \<open>m\<close> in the list returns what the pass returns
  without \<open>m\<close>, and without the earlier modifications that \<open>m\<close> overrides, on the
  input in which every attribute that \<open>m\<close> names, on every element at the path of \<open>m\<close>,
  already has the value of \<open>m\<close>. When no later modification of the list has the path
  and attribute of \<open>m\<close>, no modification is left that touches these attributes, and
  they reach the encoder with the value of \<open>m\<close>. Nothing else differs. (The element
  need not be the only one at its path; an element without such an attribute gets none;
  a suppressed element is not written at all.)
\<close>

theorem modification_sets_the_attribute:
  "frobnicate enc (toks, fin) (ms1 @ m # ms2)
     = frobnicate enc (setAttr m [] toks, fin) (filter (\<lambda>k. \<not> sameKey m k) ms1 @ ms2)
   \<and> ((\<forall>k \<in> set ms2. \<not> sameKey m k) \<longrightarrow>
        (\<forall>k \<in> set (filter (\<lambda>k. \<not> sameKey m k) ms1 @ ms2). \<not> sameKey m k)
        \<and> (\<forall>a \<in> set (patLoop (ms1 @ m # ms2) (path m) attrs).
              Local (Name a) = attribute m \<longrightarrow> Value a = value' m))"
proof -
  have 1: "frobnicate enc (toks, fin) (ms1 @ m # ms2)
     = frobnicate enc (setAttr m [] toks, fin) (filter (\<lambda>k. \<not> sameKey m k) ms1 @ ms2)"
    using frobnicate_edited[of enc toks fin "ms1 @ m # ms2"]
      frobnicate_edited[of enc "setAttr m [] toks" fin "filter (\<lambda>k. \<not> sameKey m k) ms1 @ ms2"]
      edited_setAttr[of ms1 m ms2 "[]" toks]
    by simp
  have 2: "\<forall>a \<in> set (patLoop (ms1 @ m # ms2) (path m) attrs).
              Local (Name a) = attribute m \<longrightarrow> Value a = value' m"
    if "\<forall>k \<in> set ms2. \<not> sameKey m k"
    using that finalAttr_latest[of ms2 m _ ms1] by (auto simp: patLoop_eq)
  show ?thesis using 1 2 by auto
qed

theorem modification_sets_the_attribute_witness:
  "rewrite (''<server>'' @ [CHR 0x0A] @ ''  <connector port=\"8080\"/>'' @ [CHR 0x0A] @ ''</server>'')
      [\<lparr>path = ''/server/connector'', attribute = ''port'', value' = ''8181''\<rparr>]
     = Inr (''<server>'' @ [CHR 0x0A] @ ''  <connector port=\"8181\"/>'' @ [CHR 0x0A] @ ''</server>'')
   \<and> patLoop [\<lparr>path = ''/server/connector'', attribute = ''port'', value' = ''8181''\<rparr>]
        ''/server/connector'' [\<lparr>Name = \<lparr>Space = [], Local = ''port''\<rparr>, Value = ''8080''\<rparr>]
     = [\<lparr>Name = \<lparr>Space = [], Local = ''port''\<rparr>, Value = ''8181''\<rparr>]"
proof -
  let ?m = "\<lparr>path = ''/server/connector'', attribute = ''port'', value' = ''8181''\<rparr>"
  let ?T = "[StartElement \<lparr>Space = [], Local = ''server''\<rparr> [],
             CharData [CHR 0x0A, CHR '' '', CHR '' ''],
             StartElement \<lparr>Space = [], Local = ''connector''\<rparr>
               [\<lparr>Name = \<lparr>Space = [], Local = ''port''\<rparr>, Value = ''8080''\<rparr>],
             EndElement \<lparr>Space = [], Local = ''connector''\<rparr>,
             CharData [CHR 0x0A],
             EndElement \<lparr>Space = [], Local = ''server''\<rparr>]"
  have lx: "goRawTokens (''<server>'' @ [CHR 0x0A] @ ''  <connector port=\"8080\"/>'' @ [CHR 0x0A] @ ''</server>'')
              = (?T, EOF)"
    by code_simp
  have r: "frobnicate goEncoder (setAttr ?m [] ?T, EOF) (filter (\<lambda>k. \<not> sameKey ?m k) [] @ [])
     = Inr (''<server>'' @ [CHR 0x0A] @ ''  <connector port=\"8181\"/>'' @ [CHR 0x0A] @ ''</server>'')"
    by code_simp
  have h: "\<forall>k \<in> set []. \<not> sameKey ?m k" by simp
  have a: "\<lparr>Name = \<lparr>Space = [], Local = ''port''\<rparr>, Value = ''8181''\<rparr>
             \<in> set (patLoop ([] @ ?m # []) (path ?m) [\<lparr>Name = \<lparr>Space = [], Local = ''port''\<rparr>, Value = ''8080''\<rparr>])"
    by code_simp
  note t = modification_sets_the_attribute
    [of goEncoder ?T EOF "[]" ?m "[]" "[\<lparr>Name = \<lparr>Space = [], Local = ''port''\<rparr>, Value = ''8080''\<rparr>]"]
  have 1: "rewrite (''<server>'' @ [CHR 0x0A] @ ''  <connector port=\"8080\"/>'' @ [CHR 0x0A] @ ''</server>'') [?m]
     = Inr (''<server>'' @ [CHR 0x0A] @ ''  <connector port=\"8181\"/>'' @ [CHR 0x0A] @ ''</server>'')"
    unfolding rewrite_def lx using t r by simp
  have 2: "patLoop [?m] ''/server/connector'' [\<lparr>Name = \<lparr>Space = [], Local = ''port''\<rparr>, Value = ''8080''\<rparr>]
     = [\<lparr>Name = \<lparr>Space = [], Local = ''port''\<rparr>, Value = ''8181''\<rparr>]"
    by code_simp
  show ?thesis using 1 2 by blast
qed

text \<open>
  C1 as stated fails: the path of the first modification is that of exactly one element,
  and the output has the value of the second modification, not of the first.
\<close>

theorem overridden_modification_counterexample:
  "rewrite ''<a x=\"0\"/>''
      [\<lparr>path = ''/a'', attribute = ''x'', value' = ''1''\<rparr>,
       \<lparr>path = ''/a'', attribute = ''x'', value' = ''2''\<rparr>]
     = Inr ''<a x=\"2\"/>''"
  by code_simp

text \<open>
  C2, as amended. Let \<open>lx\<close> be the lexemes of the input, let no start tag in it reach the
  path \<open>plugin\<close> (and every end tag close an open element), and let the encoder write
  every token with the bytes it was read from. Then the pass with no modification
  returns the bytes of the input, except that every start tag directly followed by an
  end tag is there in the self-closing form; and when each of these is a self-closing
  tag of the input already, the pass returns the input, byte for byte.
\<close>

theorem no_modifications_keeps_bytes:
  assumes "lexemes dec input lx"
    and "plainPaths [] (map fst lx)"
    and "echoes enc (NewEncoder enc) lx"
  shows "rewriteWith dec enc input [] = Inr (selfClosing lx)
         \<and> (emptiesSelfClosed lx \<longrightarrow> rewriteWith dec enc input [] = Inr input)"
proof -
  have "dec input = (map fst lx, EOF)" using assms(1) by (simp add: lexemes_def)
  then have "rewriteWith dec enc input [] = serialize enc (NewEncoder enc) [] (map fst lx)"
    using frobnicate_serialize[OF assms(2), of enc "[]"] by (simp add: rewriteWith_def)
  then have 1: "rewriteWith dec enc input [] = Inr (selfClosing lx)"
    using echoes_serialize[OF assms(3), of "[]"] by simp
  have "selfClosing lx = input" if "emptiesSelfClosed lx"
    using selfClosing_same[OF that] assms(1) by (simp add: lexemes_def)
  then show ?thesis using 1 by simp
qed

theorem no_modifications_keeps_bytes_witness:
  "lexemes goRawTokens ''<a x=\"1\">t<b/><c></c></a>''
     [(StartElement \<lparr>Space = [], Local = ''a''\<rparr>
          [\<lparr>Name = \<lparr>Space = [], Local = ''x''\<rparr>, Value = ''1''\<rparr>], ''<a x=\"1\">''),
      (CharData ''t'', ''t''),
      (StartElement \<lparr>Space = [], Local = ''b''\<rparr> [], ''<b/>''),
      (EndElement \<lparr>Space = [], Local = ''b''\<rparr>, []),
      (StartElement \<lparr>Space = [], Local = ''c''\<rparr> [], ''<c>''),
      (EndElement \<lparr>Space = [], Local = ''c''\<rparr>, ''</c>''),
      (EndElement \<lparr>Space = [], Local = ''a''\<rparr>, ''</a>'')]
   \<and> plainPaths [] (map fst
     [(StartElement \<lparr>Space = [], Local = ''a''\<rparr>
          [\<lparr>Name = \<lparr>Space = [], Local = ''x''\<rparr>, Value = ''1''\<rparr>], ''<a x=\"1\">''),
      (CharData ''t'', ''t''),
      (StartElement \<lparr>Space = [], Local = ''b''\<rparr> [], ''<b/>''),
      (EndElement \<lparr>Space = [], Local = ''b''\<rparr>, []),
      (StartElement \<lparr>Space = [], Local = ''c''\<rparr> [], ''<c>''),
      (EndElement \<lparr>Space = [], Local = ''c''\<rparr>, ''</c>''),
      (EndElement \<lparr>Space = [], Local = ''a''\<rparr>, ''</a>'')])
   \<and> echoes goEncoder (NewEncoder goEncoder)
     [(StartElement \<lparr>Space = [], Local = ''a''\<rparr>
          [\<lparr>Name = \<lparr>Space = [], Local = ''x''\<rparr>, Value = ''1''\<rparr>], ''<a x=\"1\">''),
      (CharData ''t'', ''t''),
      (StartElement \<lparr>Space = [], Local = ''b''\<rparr> [], ''<b/>''),
      (EndElement \<lparr>Space = [], Local = ''b''\<rparr>, []),
      (StartElement \<lparr>Space = [], Local = ''c''\<rparr> [], ''<c>''),
      (EndElement \<lparr>Space = [], Local = ''c''\<rparr>, ''</c>''),
      (EndElement \<lparr>Space = [], Local = ''a''\<rparr>, ''</a>'')]
   \<and> rewrite ''<a x=\"1\">t<b/><c></c></a>'' [] = Inr ''<a x=\"1\">t<b/><c/></a>''
   \<and> lexemes goRawTokens ''<a>t<b/></a>''
     [(StartElement \<lparr>Space = [], Local = ''a''\<rparr> [], ''<a>''),
      (CharData ''t'', ''t''),
      (StartElement \<lparr>Space = [], Local = ''b''\<rparr> [], ''<b/>''),
      (EndElement \<lparr>Space = [], Local = ''b''\<rparr>, []),
      (EndElement \<lparr>Space = [], Local = ''a''\<rparr>, ''</a>'')]
   \<and> plainPaths [] (map fst
     [(StartElement \<lparr>Space = [], Local = ''a''\<rparr> [], ''<a>''),
      (CharData ''t'', ''t''),
      (StartElement \<lparr>Space = [], Local = ''b''\<rparr> [], ''<b/>''),
      (EndElement \<lparr>Space = [], Local = ''b''\<rparr>, []),
      (EndElement \<lparr>Space = [], Local = ''a''\<rparr>, ''</a>'')])
   \<and> echoes goEncoder (NewEncoder goEncoder)
     [(StartElement \<lparr>Space = [], Local = ''a''\<rparr> [], ''<a>''),
      (CharData ''t'', ''t''),
      (StartElement \<lparr>Space = [], Local = ''b''\<rparr> [], ''<b/>''),
      (EndElement \<lparr>Space = [], Local = ''b''\<rparr>, []),
      (EndElement \<lparr>Space = [], Local = ''a''\<rparr>, ''</a>'')]
   \<and> emptiesSelfClosed
     [(StartElement \<lparr>Space = [], Local = ''a''\<rparr> [], ''<a>''),
      (CharData ''t'', ''t''),
      (StartElement \<lparr>Space = [], Local = ''b''\<rparr> [], ''<b/>''),
      (EndElement \<lparr>Space = [], Local = ''b''\<rparr>, []),
      (EndElement \<lparr>Space = [], Local = ''a''\<rparr>, ''</a>'')]
   \<and> rewrite ''<a>t<b/></a>'' [] = Inr ''<a>t<b/></a>''"
proof -
  let ?L = "[(StartElement \<lparr>Space = [], Local = ''a''\<rparr>
          [\<lparr>Name = \<lparr>Space = [], Local = ''x''\<rparr>, Value = ''1''\<rparr>], ''<a x=\"1\">''),
      (CharData ''t'', ''t''),
      (StartElement \<lparr>Space = [], Local = ''b''\<rparr> [], ''<b/>''),
      (EndElement \<lparr>Space = [], Local = ''b''\<rparr>, []),
      (StartElement \<lparr>Space = [], Local = ''c''\<rparr> [], ''<c>''),
      (EndElement \<lparr>Space = [], Local = ''c''\<rparr>, ''</c>''),
      (EndElement \<lparr>Space = [], Local = ''a''\<rparr>, ''</a>'')]"
  let ?M = "[(StartElement \<lparr>Space = [], Local = ''a''\<rparr> [], ''<a>''),
      (CharData ''t'', ''t''),
      (StartElement \<lparr>Space = [], Local = ''b''\<rparr> [], ''<b/>''),
      (EndElement \<lparr>Space = [], Local = ''b''\<rparr>, []),
      (EndElement \<lparr>Space = [], Local = ''a''\<rparr>, ''</a>'')]"
  have l1: "lexemes goRawTokens ''<a x=\"1\">t<b/><c></c></a>'' ?L" by code_simp
  have p1: "plainPaths [] (map fst ?L)" by code_simp
  have e1: "echoes goEncoder (NewEncoder goEncoder) ?L" by code_simp
  have s1: "selfClosing ?L = ''<a x=\"1\">t<b/><c/></a>''" by code_simp
  have l2: "lexemes goRawTokens ''<a>t<b/></a>'' ?M" by code_simp
  have p2: "plainPaths [] (map fst ?M)" by code_simp
  have e2: "echoes goEncoder (NewEncoder goEncoder) ?M" by code_simp
  have c2: "emptiesSelfClosed ?M" by code_simp
  have 1: "rewrite ''<a x=\"1\">t<b/><c></c></a>'' [] = Inr ''<a x=\"1\">t<b/><c/></a>''"
    unfolding rewrite_def
    using no_modifications_keeps_bytes[OF l1 p1 e1, THEN conjunct1, unfolded s1 rewriteWith_def] .
  have 2: "rewrite ''<a>t<b/></a>'' [] = Inr ''<a>t<b/></a>''"
    unfolding rewrite_def
    using mp[OF no_modifications_keeps_bytes[OF l2 p2 e2, THEN conjunct2] c2, unfolded rewriteWith_def] .
  show ?thesis using l1 p1 e1 1 l2 p2 e2 c2 2 by blast
qed

text \<open>
  C2 as stated fails, in two ways. In the first input no element has an empty body,
  there is no modification, and the output is not the input: the \<open>plugin\<close> element is
  gone. The other two inputs have no element at that path and no empty body either;
  the encoder writes the apostrophe and the tab of their character data as character
  references, so the output is not the input. This second deviation is against a goal
  that the package comment of the source gives, to keep the style and the indentation of
  the original input file.
\<close>

theorem no_modifications_changes_bytes_counterexample:
  "rewrite ''<project><profiles><profile><build><plugins><plugin><a>1</a></plugin></plugins></build></profile></profiles></project>'' []
     = Inr ''<project><profiles><profile><build><plugins></plugins></build></profile></profiles></project>''
   \<and> rewrite (''<a>it'' @ [CHR 0x27] @ ''s</a>'') [] = Inr ''<a>it&#39;s</a>''
   \<and> rewrite (''<a>'' @ [CHR 0x09] @ ''<b>x</b></a>'') [] = Inr ''<a>&#x9;<b>x</b></a>''"
  by code_simp


text \<open>
  C8, as amended. On an input in which no start tag reaches the path \<open>plugin\<close>, and
  whose edited tokens the decoder reads back from their serialisation, the pass on its
  own output, with the same modifications, returns that output.
\<close>

theorem rewrite_twice_same_bytes:
  assumes "dec x = (toks, EOF)"
    and "plainPaths [] toks"
    and "readsBack dec enc (edited ms [] toks)"
    and "rewriteWith dec enc x ms = Inr y"
  shows "rewriteWith dec enc y ms = Inr y"
proof -
  have 1: "serialize enc (NewEncoder enc) [] (edited ms [] toks) = Inr y"
    using assms(1,4) frobnicate_serialize[OF assms(2), of enc ms] by (simp add: rewriteWith_def)
  then have 2: "dec y = (edited ms [] toks, EOF)" using assms(3) by (simp add: readsBack_def)
  have "plainPaths [] (edited ms [] toks)" using assms(2) by simp
  from frobnicate_serialize[OF this, of enc ms]
  have "frobnicate enc (edited ms [] toks, EOF) ms = Inr y" using 1 by (simp add: edited_idem)
  then show ?thesis using 2 by (simp add: rewriteWith_def)
qed

theorem rewrite_twice_same_bytes_witness:
  "goRawTokens ''<a x=\"0\"><b></b></a>''
     = ([StartElement \<lparr>Space = [], Local = ''a''\<rparr>
           [\<lparr>Name = \<lparr>Space = [], Local = ''x''\<rparr>, Value = ''0''\<rparr>],
         StartElement \<lparr>Space = [], Local = ''b''\<rparr> [],
         EndElement \<lparr>Space = [], Local = ''b''\<rparr>,
         EndElement \<lparr>Space = [], Local = ''a''\<rparr>], EOF)
   \<and> rewrite ''<a x=\"0\"><b></b></a>'' [\<lparr>path = ''/a'', attribute = ''x'', value' = ''1''\<rparr>]
       = Inr ''<a x=\"1\"><b/></a>''
   \<and> plainPaths [] (fst (goRawTokens ''<a x=\"0\"><b></b></a>''))
   \<and> readsBack goRawTokens goEncoder
         (edited [\<lparr>path = ''/a'', attribute = ''x'', value' = ''1''\<rparr>] []
            (fst (goRawTokens ''<a x=\"0\"><b></b></a>'')))
   \<and> rewrite ''<a x=\"1\"><b/></a>'' [\<lparr>path = ''/a'', attribute = ''x'', value' = ''1''\<rparr>]
       = Inr ''<a x=\"1\"><b/></a>''"
proof -
  let ?m = "\<lparr>path = ''/a'', attribute = ''x'', value' = ''1''\<rparr>"
  let ?T = "[StartElement \<lparr>Space = [], Local = ''a''\<rparr>
               [\<lparr>Name = \<lparr>Space = [], Local = ''x''\<rparr>, Value = ''0''\<rparr>],
             StartElement \<lparr>Space = [], Local = ''b''\<rparr> [],
             EndElement \<lparr>Space = [], Local = ''b''\<rparr>,
             EndElement \<lparr>Space = [], Local = ''a''\<rparr>]"
  have lx: "goRawTokens ''<a x=\"0\"><b></b></a>'' = (?T, EOF)" by code_simp
  have h: "plainPaths [] ?T" by code_simp
  have rb: "readsBack goRawTokens goEncoder (edited [?m] [] ?T)" by code_simp
  have 1: "rewriteWith goRawTokens goEncoder ''<a x=\"0\"><b></b></a>'' [?m]
             = Inr ''<a x=\"1\"><b/></a>''"
    by code_simp
  have 2: "rewriteWith goRawTokens goEncoder ''<a x=\"1\"><b/></a>'' [?m]
             = Inr ''<a x=\"1\"><b/></a>''"
    using rewrite_twice_same_bytes[OF lx h rb 1] .
  show ?thesis using lx h rb 1 2 by (simp add: rewrite_def rewriteWith_def)
qed

text \<open>
  C8 as stated fails, in two ways. Every pass suppresses two more \<open>plugin\<close> elements,
  so the second pass over the output of the first returns other bytes. And without any
  such element: for \<open><a><![CDATA[]]></a>\<close> \<open>RawToken\<close> returns character data without
  a byte between the two tags, the first pass writes \<open><a></a>\<close>, and the second pass
  turns that into \<open><a/>\<close>.
\<close>

theorem second_pass_differs_counterexample:
  "rewrite ''<project><profiles><profile><build><plugins><plugin/><plugin/><plugin/></plugins></build></profile></profiles></project>'' []
     = Inr ''<project><profiles><profile><build><plugins><plugin/></plugins></build></profile></profiles></project>''
   \<and> rewrite ''<project><profiles><profile><build><plugins><plugin/></plugins></build></profile></profiles></project>'' []
     = Inr ''<project><profiles><profile><build><plugins/></build></profile></profiles></project>''
   \<and> frobnicate goEncoder ([StartElement \<lparr>Space = [], Local = ''a''\<rparr> [], CharData [],
                             EndElement \<lparr>Space = [], Local = ''a''\<rparr>], EOF) []
     = Inr ''<a></a>''
   \<and> rewrite ''<a></a>'' [] = Inr ''<a/>''"
  by code_simp

text \<open>
  C3. An end tag turns its start tag into the self-closing form only when it directly
  follows that start tag; when a token was written between the two, the end tag is
  written separately. The code breaks this. The flag \<open>previousWasStart\<close> is set by a
  start tag that is suppressed and is not cleared by the end tag that is suppressed. So
  when a suppressed \<open>plugin\<close> element with an empty body is the last child of its
  parent, the end tag of the parent takes the branch of the self-closing form, although
  a token was written after the start tag of the parent. Here that token is a blank, and
  the pass ends in the panic of its own assertion.
\<close>

theorem end_tag_after_suppressed_plugin_panics:
  "rewrite ''<project><profiles><profile><build><plugins> <plugin/></plugins></build></profile></profiles></project>'' []
     = Inl (Panic ''expected > token as last byte in output'')"
  by code_simp

text \<open>
  C7, as amended. \<open>pluginNo\<close> is never reset: a token leaves it as it is, except a start
  tag that reaches the path \<open>plugin\<close>, which adds one; so it never decreases along a run.
  Such a start tag is suppressed exactly when the counter was below two, and written
  otherwise. What the end of a suppressed element resets is \<open>skip\<close>: while \<open>skip\<close> holds
  nothing is written, and \<open>skip\<close> ends with the end tag met at the path \<open>plugin\<close>.
\<close>

theorem plugin_counter_never_resets:
  "(step enc ms s tok = Inr s' \<longrightarrow>
      pluginNo s' = pluginNo s +
        (if \<exists>n attrs. tok = StartElement n attrs \<and> path_buf s @ ''/'' @ Local n = plugin
         then 1 else 0))
   \<and> (run enc ms s toks = Inr s' \<longrightarrow> pluginNo s \<le> pluginNo s')
   \<and> (path_buf s @ ''/'' @ Local n = plugin \<and> step enc ms s (StartElement n attrs) = Inr s' \<longrightarrow>
        skip s' = (pluginNo s < 2)
        \<and> (pluginNo s < 2 \<longrightarrow> outbytes s' = outbytes s)
        \<and> (2 \<le> pluginNo s \<longrightarrow>
             (\<exists>e b. EncodeToken enc (out s) (StartElement n (patLoop ms plugin attrs)) = Inr (e, b)
                \<and> outbytes s' = outbytes s @ b)))
   \<and> (skip s \<and> step enc ms s tok = Inr s'
        \<and> (\<forall>n attrs. tok = StartElement n attrs \<longrightarrow> path_buf s @ ''/'' @ Local n \<noteq> plugin) \<longrightarrow>
        outbytes s' = outbytes s
        \<and> (skip s' \<longleftrightarrow> \<not> (\<exists>n. tok = EndElement n \<and> path_buf s = plugin)))"
proof -
  have 3: "skip s' = (pluginNo s < 2)
        \<and> (pluginNo s < 2 \<longrightarrow> outbytes s' = outbytes s)
        \<and> (2 \<le> pluginNo s \<longrightarrow>
             (\<exists>e b. EncodeToken enc (out s) (StartElement n (patLoop ms plugin attrs)) = Inr (e, b)
                \<and> outbytes s' = outbytes s @ b))"
    if "path_buf s @ ''/'' @ Local n = plugin" "step enc ms s (StartElement n attrs) = Inr s'"
    using that(2) unfolding step_start_plugin[OF that(1)]
    by (auto split: if_splits sum.splits)
  have 4: "outbytes s' = outbytes s
        \<and> (skip s' \<longleftrightarrow> \<not> (\<exists>n. tok = EndElement n \<and> path_buf s = plugin))"
    if sk: "skip s" and st: "step enc ms s tok = Inr s'"
      and np: "\<forall>n attrs. tok = StartElement n attrs \<longrightarrow> path_buf s @ ''/'' @ Local n \<noteq> plugin"
  proof (cases "\<exists>n attrs. tok = StartElement n attrs")
    case True
    then obtain n attrs where tok: "tok = StartElement n attrs" by blast
    then have "path_buf s @ ''/'' @ Local n \<noteq> plugin" using np by blast
    from st[unfolded tok step_start_skipped[OF sk this]] sk tok show ?thesis by auto
  next
    case False
    then have "\<forall>n attrs. tok \<noteq> StartElement n attrs" by blast
    from st[unfolded step_skipped[OF sk this]] sk show ?thesis
      by (cases tok) (auto split: if_splits)
  qed
  show ?thesis using step_pluginNo[of enc ms s tok s'] run_pluginNo[of enc ms s toks s'] 3 4
    by blast
qed

theorem plugin_counter_never_resets_witness:
  "path_buf \<lparr>outbytes = ''<plugins>'',
             out = \<lparr>tags = [\<lparr>Space = [], Local = ''plugins''\<rparr>], buffered = 9\<rparr>,
             previousWasStart = True, path_buf = ''/project/profiles/profile/build/plugins'',
             skip = False, pluginNo = 2, flushed = 0\<rparr> @ ''/'' @ Local \<lparr>Space = [], Local = ''plugin''\<rparr> = plugin
   \<and> step goEncoder []
        \<lparr>outbytes = ''<plugins>'',
         out = \<lparr>tags = [\<lparr>Space = [], Local = ''plugins''\<rparr>], buffered = 9\<rparr>,
         previousWasStart = True, path_buf = ''/project/profiles/profile/build/plugins'',
         skip = False, pluginNo = 2, flushed = 0\<rparr>
        (StartElement \<lparr>Space = [], Local = ''plugin''\<rparr> [])
     = Inr \<lparr>outbytes = ''<plugins><plugin>'',
            out = \<lparr>tags = [\<lparr>Space = [], Local = ''plugins''\<rparr>, \<lparr>Space = [], Local = ''plugin''\<rparr>],
                   buffered = 17\<rparr>,
            previousWasStart = True, path_buf = plugin, skip = False, pluginNo = 3, flushed = 0\<rparr>
   \<and> skip \<lparr>outbytes = ''<plugins>'', out = NewEncoder goEncoder, previousWasStart = True,
            path_buf = plugin, skip = True, pluginNo = 1, flushed = 0\<rparr>
   \<and> step goEncoder []
        \<lparr>outbytes = ''<plugins>'', out = NewEncoder goEncoder, previousWasStart = True,
         path_buf = plugin, skip = True, pluginNo = 1, flushed = 0\<rparr>
        (EndElement \<lparr>Space = [], Local = ''plugin''\<rparr>)
     = Inr \<lparr>outbytes = ''<plugins>'', out = NewEncoder goEncoder, previousWasStart = True,
            path_buf = ''/project/profiles/profile/build/plugins'', skip = False, pluginNo = 1, flushed = 0\<rparr>"
proof -
  let ?s0 = "\<lparr>outbytes = ''<plugins>'',
             out = \<lparr>tags = [\<lparr>Space = [], Local = ''plugins''\<rparr>], buffered = 9\<rparr>,
             previousWasStart = True, path_buf = ''/project/profiles/profile/build/plugins'',
             skip = False, pluginNo = 2, flushed = 0\<rparr>"
  let ?n = "\<lparr>Space = [], Local = ''plugin''\<rparr>"
  let ?t0 = "\<lparr>outbytes = ''<plugins>'', out = NewEncoder goEncoder, previousWasStart = True,
            path_buf = plugin, skip = True, pluginNo = 1, flushed = 0::nat\<rparr>"
  have p: "path_buf ?s0 @ ''/'' @ Local ?n = plugin" by code_simp
  obtain s1 where st: "step goEncoder [] ?s0 (StartElement ?n []) = Inr s1"
    by (simp add: step_start_plugin[OF p] goEncoder_def wrote_def)
  have sk: "skip ?t0" by simp
  obtain t1 where tt: "step goEncoder [] ?t0 (EndElement ?n) = Inr t1"
    by (simp add: step_skipped plugin_def)
  have np: "\<forall>n attrs. EndElement ?n = StartElement n attrs \<longrightarrow> path_buf ?t0 @ ''/'' @ Local n \<noteq> plugin"
    by simp
  from plugin_counter_never_resets[of goEncoder "[]" ?s0 "StartElement ?n []" s1 "[]" ?n "[]"] p st
  have a: "\<not> skip s1" "pluginNo s1 = 3" by auto
  from plugin_counter_never_resets[of goEncoder "[]" ?t0 "EndElement ?n" t1 "[]"] sk tt np
  have b: "outbytes t1 = ''<plugins>''" "\<not> skip t1" by auto
  have st': "step goEncoder [] ?s0 (StartElement ?n []) = Inr \<lparr>outbytes = ''<plugins><plugin>'',
            out = \<lparr>tags = [\<lparr>Space = [], Local = ''plugins''\<rparr>, \<lparr>Space = [], Local = ''plugin''\<rparr>],
                   buffered = 17\<rparr>,
            previousWasStart = True, path_buf = plugin, skip = False, pluginNo = 3, flushed = 0\<rparr>"
    by code_simp
  have tt': "step goEncoder [] ?t0 (EndElement ?n) = Inr \<lparr>outbytes = ''<plugins>'', out = NewEncoder goEncoder, previousWasStart = True,
            path_buf = ''/project/profiles/profile/build/plugins'', skip = False, pluginNo = 1, flushed = 0\<rparr>"
    by code_simp
  show ?thesis using p st' tt' a b sk by blast
qed

text \<open>
  C7 as stated fails: the third \<open>plugin\<close> element is the first one of a second
  \<open>profile\<close>, and it is written.
\<close>

theorem plugin_in_second_scope_counterexample:
  "rewrite ''<project><profiles><profile><build><plugins><plugin/><plugin/></plugins></build></profile><profile><build><plugins><plugin/></plugins></build></profile></profiles></project>'' []
     = Inr ''<project><profiles><profile><build><plugins/></build></profile><profile><build><plugins><plugin/></plugins></build></profile></profiles></project>''"
  by code_simp

text \<open>
  C9, as amended. When \<open>RawToken\<close> fails with an error other than \<open>io.EOF\<close>, the pass
  returns no output; if the tokens before the failure were processed, it ends in
  \<open>log.Fatalf\<close> with the error in its message, which is not a return of \<open>frobnicate\<close>
  with an error. When \<open>RawToken\<close> returns \<open>io.EOF\<close> after these tokens, the pass flushes
  the encoder and returns the buffer, which then holds every byte written. A token that
  fails ends the pass with its failure, whatever comes after it.
\<close>

theorem lexing_failure_exits:
  "(\<forall>outp. frobnicate enc (toks, LexError err) ms \<noteq> Inr outp)
   \<and> (run enc ms (start enc) toks = Inr s \<longrightarrow>
        frobnicate enc (toks, LexError err) ms
          = Inl (Fatal (''Unexpected error while parsing XML file: '' @ err))
        \<and> \<not> returnsError (frobnicate enc (toks, LexError err) ms)
        \<and> frobnicate enc (toks, EOF) ms = Inr (buffer (flush enc s))
        \<and> buffer (flush enc s) = outbytes s)
   \<and> (run enc ms (start enc) toks = Inl f \<longrightarrow> frobnicate enc (toks, fin) ms = Inl f)"
proof -
  have 1: "frobnicate enc (toks, LexError err) ms \<noteq> Inr outp" for outp
    by (simp add: frobnicate_def loop_run[of enc ms "start enc" toks] split: sum.splits)
  have 2: "frobnicate enc (toks, LexError err) ms
          = Inl (Fatal (''Unexpected error while parsing XML file: '' @ err))
        \<and> \<not> returnsError (frobnicate enc (toks, LexError err) ms)
        \<and> frobnicate enc (toks, EOF) ms = Inr (buffer (flush enc s))
        \<and> buffer (flush enc s) = outbytes s"
    if "run enc ms (start enc) toks = Inr s"
    using that
    by (simp add: frobnicate_def loop_run[of enc ms "start enc" toks] flush_def buffer_def
        returnsError_def)
  have 3: "frobnicate enc (toks, fin) ms = Inl f" if "run enc ms (start enc) toks = Inl f"
    using that by (simp add: frobnicate_def loop_run[of enc ms "start enc" toks])
  show ?thesis using 1 2 3 by blast
qed

text \<open>
  In the witness the buffer is empty after the start tag, which the encoder has
  written but not passed on: what the pass returns is there by the final \<open>Flush\<close>.
\<close>

theorem lexing_failure_exits_witness:
  "run goEncoder [] (start goEncoder) [StartElement \<lparr>Space = [], Local = ''a''\<rparr> []]
     = Inr \<lparr>outbytes = ''<a>'', out = \<lparr>tags = [\<lparr>Space = [], Local = ''a''\<rparr>], buffered = 3\<rparr>,
            previousWasStart = True, path_buf = ''/a'', skip = False, pluginNo = 0, flushed = 0\<rparr>
   \<and> buffer \<lparr>outbytes = ''<a>'', out = \<lparr>tags = [\<lparr>Space = [], Local = ''a''\<rparr>], buffered = 3\<rparr>,
            previousWasStart = True, path_buf = ''/a'', skip = False, pluginNo = 0, flushed = 0\<rparr>
     = []
   \<and> frobnicate goEncoder ([StartElement \<lparr>Space = [], Local = ''a''\<rparr> []], LexError ''unexpected EOF'') []
     = Inl (Fatal ''Unexpected error while parsing XML file: unexpected EOF'')
   \<and> frobnicate goEncoder ([StartElement \<lparr>Space = [], Local = ''a''\<rparr> []], EOF) [] = Inr ''<a>''
   \<and> run goEncoder [] (start goEncoder) [EndElement \<lparr>Space = [], Local = ''a''\<rparr>]
     = Inl (Panic ''bytes.Buffer: truncation out of range'')
   \<and> frobnicate goEncoder ([EndElement \<lparr>Space = [], Local = ''a''\<rparr>], EOF) []
     = Inl (Panic ''bytes.Buffer: truncation out of range'')"
proof -
  let ?s = "\<lparr>outbytes = ''<a>'', out = \<lparr>tags = [\<lparr>Space = [], Local = ''a''\<rparr>], buffered = 3\<rparr>,
            previousWasStart = True, path_buf = ''/a'', skip = False, pluginNo = 0, flushed = 0::nat\<rparr>"
  have r: "run goEncoder [] (start goEncoder) [StartElement \<lparr>Space = [], Local = ''a''\<rparr> []] = Inr ?s"
    by code_simp
  have b: "buffer ?s = []" by (simp add: buffer_def)
  have q: "run goEncoder [] (start goEncoder) [EndElement \<lparr>Space = [], Local = ''a''\<rparr>]
     = Inl (Panic ''bytes.Buffer: truncation out of range'')"
    by code_simp
  from lexing_failure_exits
    [of goEncoder "[StartElement \<lparr>Space = [], Local = ''a''\<rparr> []]" "''unexpected EOF''" "[]" ?s] r
  have 1: "frobnicate goEncoder ([StartElement \<lparr>Space = [], Local = ''a''\<rparr> []], LexError ''unexpected EOF'') []
     = Inl (Fatal ''Unexpected error while parsing XML file: unexpected EOF'')"
    "frobnicate goEncoder ([StartElement \<lparr>Space = [], Local = ''a''\<rparr> []], EOF) [] = Inr ''<a>''"
    by simp_all
  from lexing_failure_exits
    [of goEncoder "[EndElement \<lparr>Space = [], Local = ''a''\<rparr>]" _ "[]" _
        "Panic ''bytes.Buffer: truncation out of range''" EOF] q
  have 2: "frobnicate goEncoder ([EndElement \<lparr>Space = [], Local = ''a''\<rparr>], EOF) []
     = Inl (Panic ''bytes.Buffer: truncation out of range'')"
    by blast
  show ?thesis using r b q 1 2 by blast
qed

text \<open>
  C9 as stated fails: on a lexing failure, here the one of \<open>RawToken\<close> on \<open><a><\<close>, the
  cause is in the message of \<open>log.Fatalf\<close>, with which the process exits; \<open>frobnicate\<close>
  returns no error result.
\<close>

theorem lexing_failure_returns_no_error_counterexample:
  "frobnicate goEncoder ([StartElement \<lparr>Space = [], Local = ''a''\<rparr> []],
                         LexError ''XML syntax error on line 1: unexpected EOF'') []
     = Inl (Fatal ''Unexpected error while parsing XML file: XML syntax error on line 1: unexpected EOF'')
   \<and> \<not> returnsError
         (frobnicate goEncoder ([StartElement \<lparr>Space = [], Local = ''a''\<rparr> []],
                                LexError ''XML syntax error on line 1: unexpected EOF'') [])"
  by code_simp


end
